theory Spec2Isabelle
  imports Main "HOL-Library.Sublist" "HOL-Library.Char_ord" "HOL-Library.List_Lexorder"
    "HOL-Library.Multiset" "HOL-Library.AList"
begin

section \<open>The changelog writer of generate-changelog (lib/writer.js)\<close>

text \<open>
  A shallow embedding of \<^verbatim>\<open>src/lib/writer.js\<close>. A JavaScript string is modelled as a
  HOL \<open>string\<close>: one \<open>char\<close> stands for one UTF-16 code unit, so the model covers the
  strings whose code units are below 256. The only text of the source outside that range is
  the emoji that ends the heading of the \<open>test\<close> type; it is only ever concatenated, never
  inspected, and is written here as the four bytes of its UTF-8 encoding.
\<close>

subsection \<open>String primitives of the JavaScript runtime\<close>

text \<open>\<^verbatim>\<open>s.startsWith(p)\<close>, written out so that it evaluates.\<close>

fun starts_with :: "string \<Rightarrow> string \<Rightarrow> bool" where
  "starts_with s [] = True"
| "starts_with [] (p # ps) = False"
| "starts_with (c # cs) (p # ps) = (c = p \<and> starts_with cs ps)"

text \<open>
  \<^verbatim>\<open>s.indexOf(p)\<close>: the position of the first occurrence of \<open>p\<close> in \<open>s\<close>, or \<open>-1\<close>.
  \<open>index_from i s p\<close> searches \<open>s\<close>, whose first character sits at position \<open>i\<close>.
\<close>

fun index_from :: "int \<Rightarrow> string \<Rightarrow> string \<Rightarrow> int" where
  "index_from i [] p = (if p = [] then i else -1)"
| "index_from i (c # cs) p =
     (if starts_with (c # cs) p then i else index_from (i + 1) cs p)"

definition indexOf :: "string \<Rightarrow> string \<Rightarrow> int" where
  "indexOf s p = index_from 0 s p"

text \<open>
  \<^verbatim>\<open>s.slice(b, e)\<close> and \<^verbatim>\<open>s.slice(b)\<close>: a negative index counts from the end of the
  string, and both ends are clamped to the string.
\<close>

definition slice_index :: "string \<Rightarrow> int \<Rightarrow> nat" where
  "slice_index s i =
     (if i < 0 then nat (max (int (length s) + i) 0) else min (nat i) (length s))"

definition slice :: "string \<Rightarrow> int \<Rightarrow> int \<Rightarrow> string" where
  "slice s b e = take (slice_index s e - slice_index s b) (drop (slice_index s b) s)"

definition slice_from :: "string \<Rightarrow> int \<Rightarrow> string" where
  "slice_from s b = drop (slice_index s b) s"

text \<open>
  \<^verbatim>\<open>s.substring(b, e)\<close> for indices that are not negative: both are clamped to the
  string, and swapped when the first is the larger.
\<close>

definition substring :: "string \<Rightarrow> nat \<Rightarrow> nat \<Rightarrow> string" where
  "substring s b e = take (max b e - min b e) (drop (min b e) s)"

text \<open>
  \<^verbatim>\<open>s.trim()\<close> removes white space and line terminators at both ends. Below 256 these
  are the code units 9 to 13, 32 and 160.
\<close>

definition white_space :: "char \<Rightarrow> bool" where
  "white_space c \<longleftrightarrow>
     c \<in> set [CHR 0x09, CHR 0x0A, CHR 0x0B, CHR 0x0C, CHR 0x0D, CHR 0x20, CHR 0xA0]"

definition trim :: "string \<Rightarrow> string" where
  "trim s = rev (dropWhile white_space (rev (dropWhile white_space s)))"

text \<open>\<^verbatim>\<open>s.replaceAll(c, r)\<close> for a pattern \<open>c\<close> of one character.\<close>

definition replaceAll :: "string \<Rightarrow> char \<Rightarrow> string \<Rightarrow> string" where
  "replaceAll s c r = concat (map (\<lambda>x. if x = c then r else [x]) s)"

text \<open>\<^verbatim>\<open>lines.join('\n')\<close>.\<close>

fun join :: "string list \<Rightarrow> string" where
  "join [] = []"
| "join [l] = l"
| "join (l # m # ls) = l @ CHR 0x0A # join (m # ls)"

subsection \<open>The regular expressions\<close>

definition digit :: "char \<Rightarrow> bool" where
  "digit c \<longleftrightarrow> CHR ''0'' \<le> c \<and> c \<le> CHR ''9''"

definition nonzero_digit :: "char \<Rightarrow> bool" where
  "nonzero_digit c \<longleftrightarrow> CHR ''1'' \<le> c \<and> c \<le> CHR ''9''"

text \<open>
  \<^verbatim>\<open>subject.replace(PR_REGEX, f)\<close> with \<^verbatim>\<open>PR_REGEX = /#[1-9][\d]*/g\<close>: the string is
  scanned from the left; at a \<open>#\<close> followed by a digit from 1 to 9 the match takes every
  digit that follows, \<open>f\<close> is called on the matched text and the scan goes on behind the
  match. Every other character is copied.
\<close>

function replace_PR :: "(string \<Rightarrow> string) \<Rightarrow> string \<Rightarrow> string" where
  "replace_PR f [] = []"
| "replace_PR f (c # cs) =
     (if c = CHR ''#'' \<and> cs \<noteq> [] \<and> nonzero_digit (hd cs)
      then f (c # takeWhile digit cs) @ replace_PR f (dropWhile digit cs)
      else c # replace_PR f cs)"
  by pat_completeness auto
termination
  by (relation "measure (\<lambda>(f, s). length s)")
     (auto simp: length_dropWhile_le intro: le_imp_less_Suc)

declare replace_PR.simps [simp del]

text \<open>
  The \<open>.\<close> of a regular expression (without the \<open>s\<close> flag) matches every character but a
  line terminator: below 256 these are line feed and carriage return.
\<close>

definition newline :: "char \<Rightarrow> bool" where
  "newline c \<longleftrightarrow> c = CHR 0x0A"

definition dot :: "char \<Rightarrow> bool" where
  "dot c \<longleftrightarrow> c \<noteq> CHR 0x0A \<and> c \<noteq> CHR 0x0D"

text \<open>\<open>k\<close> times \<^verbatim>\<open>(\n)*(.)*\<close>, each star greedy: what is left of the string behind them.\<close>

fun skip_lines :: "nat \<Rightarrow> string \<Rightarrow> string" where
  "skip_lines 0 s = s"
| "skip_lines (Suc k) s = skip_lines k (dropWhile dot (dropWhile newline s))"

lemma length_skip_lines: "length (skip_lines k s) \<le> length s"
proof (induction k arbitrary: s)
  case 0
  show ?case by simp
next
  case (Suc k)
  have "length (skip_lines k (dropWhile dot (dropWhile newline s)))
      \<le> length (dropWhile dot (dropWhile newline s))"
    by (rule Suc.IH)
  also have "\<dots> \<le> length (dropWhile newline s)" by (rule length_dropWhile_le)
  also have "\<dots> \<le> length s" by (rule length_dropWhile_le)
  finally show ?case by simp
qed

text \<open>
  \<^verbatim>\<open>body.replace(/(\n)+(MARKER)(.)*(\n)*(.)*...(\n)*(.)*/g, '$1 ')\<close>, where \<open>k\<close> counts
  the pairs \<^verbatim>\<open>(\n)*(.)*\<close> behind the first \<^verbatim>\<open>(.)*\<close>. A match starts at a line feed,
  takes the whole run of line feeds (with fewer the marker could not follow), the marker,
  the rest of its line, and \<open>k\<close> times a run of line feeds and the characters up to the
  next line terminator. No part behind the marker can fail, so the greedy choice is the
  match. The first group holds a line feed: the match is replaced by a line feed and a
  space, and the scan goes on behind it.
\<close>

function replace_trailer :: "string \<Rightarrow> nat \<Rightarrow> string \<Rightarrow> string" where
  "replace_trailer marker k [] = []"
| "replace_trailer marker k (c # cs) =
     (if newline c \<and> starts_with (dropWhile newline cs) marker
      then CHR 0x0A # CHR '' '' #
        replace_trailer marker k
          (skip_lines k (dropWhile dot (drop (length marker) (dropWhile newline cs))))
      else c # replace_trailer marker k cs)"
  by pat_completeness auto
termination
proof (relation "measure (\<lambda>(marker, k, s). length s)")
  show "wf (measure (\<lambda>(marker, k, s). length s))" by simp
next
  fix marker :: string and k :: nat and c :: char and cs :: string
  have "length (skip_lines k (dropWhile dot (drop (length marker) (dropWhile newline cs))))
      \<le> length (dropWhile dot (drop (length marker) (dropWhile newline cs)))"
    by (rule length_skip_lines)
  also have "\<dots> \<le> length (drop (length marker) (dropWhile newline cs))"
    by (rule length_dropWhile_le)
  also have "\<dots> \<le> length (dropWhile newline cs)" by simp
  also have "\<dots> \<le> length cs" by (rule length_dropWhile_le)
  finally show "((marker, k,
      skip_lines k (dropWhile dot (drop (length marker) (dropWhile newline cs)))),
      marker, k, c # cs) \<in> measure (\<lambda>(marker, k, s). length s)"
    by simp
next
  fix marker :: string and k :: nat and c :: char and cs :: string
  show "((marker, k, cs), marker, k, c # cs) \<in> measure (\<lambda>(marker, k, s). length s)"
    by simp
qed

declare replace_trailer.simps [simp del]

subsection \<open>getCommitUrl\<close>

definition getCommitUrl :: "string \<Rightarrow> string \<Rightarrow> string" where
  "getCommitUrl baseUrl commitHash =
     (let urlCommitName = (if indexOf baseUrl ''bitbucket'' \<noteq> -1 then ''commits'' else ''commit'');
          baseUrl' = (if indexOf baseUrl ''gitlab'' \<noteq> -1 \<and> slice_from baseUrl (-4) = ''.git''
                      then slice baseUrl 0 (-4) else baseUrl)
      in baseUrl' @ ''/'' @ urlCommitName @ ''/'' @ commitHash)"

subsection \<open>Objects used as dictionaries\<close>

text \<open>
  The writer keeps its catalogue of types and its groups of commits in plain objects. An
  object is modelled by the list of its own properties in the order of their creation. A
  read \<^verbatim>\<open>o[k]\<close> that finds no own property \<open>k\<close> goes on to \<^verbatim>\<open>Object.prototype\<close>, and
  finds there a member of the runtime under each of the names below: a function under
  every name but \<^verbatim>\<open>__proto__\<close>, which yields \<^verbatim>\<open>Object.prototype\<close> itself. All of them
  are truthy, and none is a string or an array.
\<close>

definition Object_prototype :: "string list" where
  "Object_prototype =
     [''constructor'', ''__defineGetter__'', ''__defineSetter__'', ''hasOwnProperty'',
      ''__lookupGetter__'', ''__lookupSetter__'', ''isPrototypeOf'', ''propertyIsEnumerable'',
      ''toString'', ''valueOf'', ''__proto__'', ''toLocaleString'']"

datatype 'a property = Undefined | Own 'a | Inherited

definition get :: "(string \<times> 'a) list \<Rightarrow> string \<Rightarrow> 'a property" where
  "get obj k =
     (case map_of obj k of
        Some v \<Rightarrow> Own v
      | None \<Rightarrow> if k \<in> set Object_prototype then Inherited else Undefined)"

text \<open>
  \<^verbatim>\<open>Object.keys(o)\<close> lists the own properties: first the keys that are array indices (the
  decimal numerals, without a leading zero, of the numbers below \<open>2^32 - 1\<close>) in ascending
  numeric order, then the other keys in the order of their creation. \<open>entries\<close> pairs each
  key with its value: the loops of the writer read \<^verbatim>\<open>o[k]\<close> for each key \<open>k\<close> of
  \<^verbatim>\<open>Object.keys(o)\<close>.
\<close>

definition decimal :: "string \<Rightarrow> int" where
  "decimal k = foldl (\<lambda>n c. 10 * n + (of_char c - 48)) 0 k"

definition array_index :: "string \<Rightarrow> bool" where
  "array_index k \<longleftrightarrow>
     k \<noteq> [] \<and> list_all digit k \<and> (k = ''0'' \<or> hd k \<noteq> CHR ''0'') \<and> decimal k < 4294967295"

definition entries :: "(string \<times> 'a) list \<Rightarrow> (string \<times> 'a) list" where
  "entries obj =
     sort_key (\<lambda>p. decimal (fst p)) (filter (\<lambda>p. array_index (fst p)) obj)
     @ filter (\<lambda>p. \<not> array_index (fst p)) obj"

definition Object_keys :: "(string \<times> 'a) list \<Rightarrow> string list" where
  "Object_keys obj = map fst (entries obj)"

text \<open>
  A value that is a string or \<^verbatim>\<open>undefined\<close>: its truth value in a condition, and the
  property key it stands for in \<^verbatim>\<open>o[v]\<close>.
\<close>

definition truthy :: "string option \<Rightarrow> bool" where
  "truthy v = (case v of None \<Rightarrow> False | Some s \<Rightarrow> s \<noteq> [])"

definition property_key :: "string option \<Rightarrow> string" where
  "property_key v = (case v of None \<Rightarrow> ''undefined'' | Some s \<Rightarrow> s)"

subsection \<open>Constants, commits and options\<close>

definition DEFAULT_TYPE :: string where
  "DEFAULT_TYPE = ''other''"

definition TYPES :: "(string \<times> string) list" where
  "TYPES =
     [(''breaking'', ''Breaking Changes :boom:''),
      (''build'', ''Build System / Dependencies :construction_worker: :arrow_up:''),
      (''ci'', ''Continuous Integration :rocket:''),
      (''docs'', ''Documentation Changes :memo:''),
      (''feat'', ''New Features :sparkles:''),
      (''fix'', ''Bug Fixes :bug:''),
      (''perf'', ''Performance Improvements :zap:''),
      (''refactor'', ''Refactors :recycle:''),
      (''style'', ''Code Style Changes :art: :lipstick:''),
      (''test'', ''Tests '' @ [CHR 0xF0, CHR 0x9F, CHR 0xA7, CHR 0xAA]),
      (''other'', ''Other Changes :question:'')]"

text \<open>
  A parsed commit, as the writer reads it. A field the object lacks reads as
  \<^verbatim>\<open>undefined\<close>, here \<open>None\<close>.
\<close>

record commit =
  hash :: "string option"
  ctype :: "string option"
  category :: "string option"
  subject :: "string option"
  body :: "string option"
  flagIfBreaking :: "string option"

text \<open>The options the writer reads (it never reads \<^verbatim>\<open>options.patch\<close>).\<close>

record options =
  major :: bool
  minor :: bool
  repoUrl :: "string option"
  allowUnknown :: bool

text \<open>
  How a run of the model can end without a document. \<open>TypeError\<close> is the exception of the
  runtime for a call of something that is not a function, or for a property read on
  \<^verbatim>\<open>undefined\<close>; the promise is rejected with it. \<open>Builtin_object\<close> is no outcome of the
  code: it marks the border of the model. Through an inherited property the code has taken
  a member of \<^verbatim>\<open>Object.prototype\<close> for one of its groups, and goes on to read and write
  properties of that object of the runtime, which the whole process shares; the code may
  well return a document from there, and the model does not follow it. Every property
  below that speaks of a document is stated for lists of commits that stay inside the
  border.
\<close>

datatype failure = TypeError | Builtin_object

text \<open>A loop whose body can fail: the first failure ends it.\<close>

fun for_each :: "('a \<Rightarrow> failure + 'b) \<Rightarrow> 'a list \<Rightarrow> failure + 'b list" where
  "for_each f [] = Inr []"
| "for_each f (x # xs) =
     (case f x of
        Inl e \<Rightarrow> Inl e
      | Inr y \<Rightarrow> (case for_each f xs of Inl e \<Rightarrow> Inl e | Inr ys \<Rightarrow> Inr (y # ys)))"

subsection \<open>markdown: grouping the commits\<close>

text \<open>
  Line 77: \<^verbatim>\<open>TYPES[commit.type] || options.allowUnknown ? commit.type : DEFAULT_TYPE\<close>.
  The conditional binds weaker than \<^verbatim>\<open>||\<close>. The result is used as a property key only.
\<close>

definition resolve_type :: "bool \<Rightarrow> commit \<Rightarrow> string" where
  "resolve_type allow c =
     (if (case get TYPES (property_key (ctype c)) of
            Undefined \<Rightarrow> False | Own d \<Rightarrow> d \<noteq> [] | Inherited \<Rightarrow> True) \<or> allow
      then property_key (ctype c) else DEFAULT_TYPE)"

text \<open>
  Lines 78 to 83, the body of the first loop, on \<^verbatim>\<open>this.types\<close>:
  \<^verbatim>\<open>types[type] = types[type] || {}\<close>, then
  \<^verbatim>\<open>types[type][category] = types[type][category] || []\<close>, then the \<^verbatim>\<open>push\<close>.
  An inherited member under the category is kept by the second statement, and has no
  \<^verbatim>\<open>push\<close>.
\<close>

type_synonym groups = "(string \<times> (string \<times> commit list) list) list"

definition add_commit :: "bool \<Rightarrow> groups \<Rightarrow> commit \<Rightarrow> failure + groups" where
  "add_commit allow types c =
     (let ty = resolve_type allow c; cat = property_key (category c) in
      case get types ty of
        Inherited \<Rightarrow> Inl Builtin_object
      | Undefined \<Rightarrow>
          (case get [] cat of
             Inherited \<Rightarrow> Inl TypeError
           | Own commits \<Rightarrow> Inr (AList.update ty [(cat, commits @ [c])] types)
           | Undefined \<Rightarrow> Inr (AList.update ty [(cat, [c])] types))
      | Own cats \<Rightarrow>
          (case get cats cat of
             Inherited \<Rightarrow> Inl TypeError
           | Own commits \<Rightarrow> Inr (AList.update ty (AList.update cat (commits @ [c]) cats) types)
           | Undefined \<Rightarrow> Inr (AList.update ty (AList.update cat [c] cats) types)))"

fun group_commits :: "bool \<Rightarrow> groups \<Rightarrow> commit list \<Rightarrow> failure + groups" where
  "group_commits allow types [] = Inr types"
| "group_commits allow types (c # cs) =
     (case add_commit allow types c of
        Inl e \<Rightarrow> Inl e
      | Inr types' \<Rightarrow> group_commits allow types' cs)"

subsection \<open>markdown: rendering\<close>

text \<open>Lines 57 to 69. \<open>date\<close> is \<^verbatim>\<open>new Date().toJSON().slice(0, 10)\<close>, the day of the run.\<close>

definition heading :: "options \<Rightarrow> string option \<Rightarrow> string \<Rightarrow> string" where
  "heading opts version date =
     (if major opts then ''##'' else if minor opts then ''###'' else ''####'')
     @ (if truthy version then '' '' @ property_key version @ '' ('' @ date @ '')''
        else '' '' @ date)"

text \<open>
  Lines 90 to 96. \<^verbatim>\<open>TYPES[type]\<close> finds an inherited member for a key that names one; it is
  truthy, and line 96 turns it into text: the runtime (V8) prints a function as
  \<^verbatim>\<open>function name() { [native code] }\<close>, the function under \<open>constructor\<close> being named
  \<open>Object\<close> and every other one like its key, and prints \<^verbatim>\<open>Object.prototype\<close>, found
  under \<^verbatim>\<open>__proto__\<close>, as \<^verbatim>\<open>[object Object]\<close>.
\<close>

definition TYPES_other :: string where
  "TYPES_other = (case get TYPES ''other'' of Own d \<Rightarrow> d | _ \<Rightarrow> ''undefined'')"

definition member_text :: "string \<Rightarrow> string" where
  "member_text k =
     (if k = ''__proto__'' then ''[object Object]''
      else ''function '' @ (if k = ''constructor'' then ''Object'' else k)
        @ ''() { [native code] }'')"

definition typeDescription :: "bool \<Rightarrow> string \<Rightarrow> string" where
  "typeDescription allow ty =
     (case get TYPES ty of
        Inherited \<Rightarrow> member_text ty
      | Own d \<Rightarrow> if d = [] \<and> allow then TYPES_other @ '' ('' @ ty @ '')'' else d
      | Undefined \<Rightarrow> if allow then TYPES_other @ '' ('' @ ty @ '')'' else ''undefined'')"

text \<open>Lines 112 to 131: the short hash and the subject, with their links.\<close>

definition linked :: "options \<Rightarrow> string \<Rightarrow> string \<Rightarrow> string \<Rightarrow> string \<times> string" where
  \<open>linked opts ty h s =
     (let shorthash = substring h 0 8 in
      case repoUrl opts of
        None \<Rightarrow> (shorthash, s)
      | Some url \<Rightarrow>
          if url = [] then (shorthash, s)
          else if ty = ''breaking'' then
            (''<a href="'' @ getCommitUrl url h @ ''">'' @ shorthash @ ''</a>'',
             replace_PR (\<lambda>pr. ''<a href="'' @ url @ ''/pull/'' @ slice_from pr 1 @ ''">'' @ pr @ ''</a>'') s)
          else
            (''['' @ shorthash @ '']('' @ getCommitUrl url h @ '')'',
             replace_PR (\<lambda>pr. ''['' @ pr @ '']('' @ url @ ''/pull/'' @ slice_from pr 1 @ '')'') s))\<close>

text \<open>Line 133.\<close>

definition breaking_prefix :: "commit \<Rightarrow> string" where
  "breaking_prefix c =
     (if truthy (flagIfBreaking c) then ''('' @ property_key (flagIfBreaking c) @ ''): '' else [])"

text \<open>Lines 134 to 136: the three substitutions, each guarded by \<^verbatim>\<open>body ? ... : ''\<close>.\<close>

definition strip_trailers :: "string option \<Rightarrow> string" where
  "strip_trailers b =
     (let b1 = (if truthy b then replace_trailer ''END BREAKING CHANGE'' 4 (property_key b) else []);
          b2 = (if b1 \<noteq> [] then replace_trailer ''See'' 3 b1 else []);
          b3 = (if b2 \<noteq> [] then replace_trailer ''Closes'' 2 b2 else [])
      in b3)"

text \<open>Lines 137 to 140: the block built around the body.\<close>

definition details :: "string \<Rightarrow> string \<Rightarrow> string \<Rightarrow> string \<Rightarrow> string" where
  "details breaking subj shorthash b =
     (let b1 = ''      '' @ b;
          b2 = (if b1 \<noteq> [] then replaceAll b1 (CHR 0x0A) ''\<newline>      '' else []);
          b3 = ''\<newline>   * <details>\<newline>      <summary>'' @ breaking @ trim subj
               @ '' ('' @ shorthash @ '')</summary>\<newline>\<newline>'' @ b2
      in b3 @ ''</details>'')"

text \<open>
  Lines 111 to 151, the body of the innermost loop: the line pushed for one commit of the
  group \<open>ty\<close> under \<open>bullet\<close>, the \<^verbatim>\<open>prefix\<close> of the source. \<^verbatim>\<open>commit.hash.substring\<close> and
  \<^verbatim>\<open>subject.replace\<close> or \<^verbatim>\<open>subject.trim\<close> are reads on \<^verbatim>\<open>undefined\<close> when the commit
  lacks the field.
\<close>

definition render_commit :: "options \<Rightarrow> string \<Rightarrow> string \<Rightarrow> commit \<Rightarrow> failure + string" where
  "render_commit opts ty bullet c =
     (case hash c of
        None \<Rightarrow> Inl TypeError
      | Some h \<Rightarrow>
          (case subject c of
             None \<Rightarrow> Inl TypeError
           | Some s \<Rightarrow>
               (let (shorthash, subj) = linked opts ty h s;
                    breaking = breaking_prefix c;
                    b = details breaking subj shorthash (strip_trailers (body c))
                in if ty = ''breaking'' \<and> b \<noteq> []
                   then (if bullet = ''*'' then Inr ('' '' @ trim b) else Inr (bullet @ '' '' @ b))
                   else Inr (bullet @ '' '' @ breaking @ trim subj @ '' ('' @ shorthash @ '')''))))"

text \<open>Lines 99 to 153: the lines of one category of the group \<open>ty\<close>.\<close>

definition render_category ::
  "options \<Rightarrow> string \<Rightarrow> string \<times> commit list \<Rightarrow> failure + string list" where
  "render_category opts ty entry =
     (let cat = fst entry; commits = snd entry;
          nested = (length commits > 1);
          categoryHeading = ''*'' @ (if cat \<noteq> [] then '' **'' @ cat @ '':**'' else [])
      in if nested \<and> cat \<noteq> []
         then (case for_each (render_commit opts ty ''  *'') commits of
                 Inl e \<Rightarrow> Inl e
               | Inr ls \<Rightarrow> Inr (categoryHeading # ls))
         else for_each (render_commit opts ty categoryHeading) commits)"

text \<open>Lines 88 to 156, the body of the second loop: the section of one group.\<close>

definition render_type ::
  "options \<Rightarrow> string \<times> (string \<times> commit list) list \<Rightarrow> failure + string list" where
  "render_type opts entry =
     (let ty = fst entry; cats = snd entry;
          description = typeDescription (allowUnknown opts) ty
      in case for_each (render_category opts ty) (entries cats) of
           Inl e \<Rightarrow> Inl e
         | Inr ls \<Rightarrow> Inr ([''##### '' @ description, []] @ concat ls @ [[]]))"

text \<open>
  Lines 85 to 87: \<^verbatim>\<open>Object.keys(this.types).sort()\<close>. The default order of \<^verbatim>\<open>sort\<close>
  compares strings code unit by code unit, a proper prefix first. The second loop reads
  \<^verbatim>\<open>this.types[type]\<close> for each key; a key that is no own property cannot come out of
  \<^verbatim>\<open>Object.keys\<close>.
\<close>

definition sections :: "groups \<Rightarrow> (string \<times> (string \<times> commit list) list) list" where
  "sections types =
     concat (map (\<lambda>ty. case map_of types ty of None \<Rightarrow> [] | Some cats \<Rightarrow> [(ty, cats)])
       (sort (Object_keys types)))"

text \<open>
  The whole function: the promise it returns is modelled by its outcome, the document
  or the failure it is rejected with.
\<close>

definition markdown ::
  "string option \<Rightarrow> string \<Rightarrow> commit list \<Rightarrow> options \<Rightarrow> failure + string" where
  "markdown version date commits opts =
     (case group_commits (allowUnknown opts) [] commits of
        Inl e \<Rightarrow> Inl e
      | Inr types \<Rightarrow>
          (case for_each (render_type opts) (sections types) of
             Inl e \<Rightarrow> Inl e
           | Inr secs \<Rightarrow>
               Inr (join ([heading opts version date, []] @ concat secs @ [[]]))))"

subsection \<open>Vocabulary of the properties\<close>

text \<open>A key under which a read of a plain object finds no inherited member.\<close>

definition own_key :: "string \<Rightarrow> bool" where
  "own_key k \<longleftrightarrow> k \<notin> set Object_prototype"

text \<open>The elements of a list in the order of their first occurrence.\<close>

fun first_seen :: "'a list \<Rightarrow> 'a list" where
  "first_seen [] = []"
| "first_seen (x # xs) = x # filter (\<lambda>y. y \<noteq> x) (first_seen xs)"

text \<open>
  The groups of a list of commits, said directly: the resolved types in the order of
  their first occurrence; under each type the categories of its commits in the order of
  their first occurrence; under each category the commits of that type and category, in
  the order of the input.
\<close>

definition category_key :: "commit \<Rightarrow> string" where
  "category_key c = property_key (category c)"

definition bucket :: "bool \<Rightarrow> commit list \<Rightarrow> string \<Rightarrow> string \<Rightarrow> commit list" where
  "bucket allow cs ty cat = filter (\<lambda>c. resolve_type allow c = ty \<and> category_key c = cat) cs"

definition categories_of :: "bool \<Rightarrow> commit list \<Rightarrow> string \<Rightarrow> string list" where
  "categories_of allow cs ty =
     first_seen (map category_key (filter (\<lambda>c. resolve_type allow c = ty) cs))"

definition group_of :: "bool \<Rightarrow> commit list \<Rightarrow> string \<Rightarrow> (string \<times> commit list) list" where
  "group_of allow cs ty = map (\<lambda>cat. (cat, bucket allow cs ty cat)) (categories_of allow cs ty)"

definition grouping :: "bool \<Rightarrow> commit list \<Rightarrow> groups" where
  "grouping allow cs =
     map (\<lambda>ty. (ty, group_of allow cs ty)) (first_seen (map (resolve_type allow) cs))"

text \<open>
  A list of commits with other bodies: \<open>redact allow f\<close> gives every commit whose resolved
  type is not \<open>breaking\<close> the body \<open>f\<close> chooses for it.
\<close>

definition redact :: "bool \<Rightarrow> (commit \<Rightarrow> string option) \<Rightarrow> commit \<Rightarrow> commit" where
  "redact allow f c = (if resolve_type allow c = ''breaking'' then c else c\<lparr>body := f c\<rparr>)"

text \<open>
  The document of a list of commits, said directly. \<open>type_keys\<close> are the resolved types,
  each once, in ascending order. \<open>category_keys\<close> are the categories of a type in the
  order of \<^verbatim>\<open>Object.keys\<close>: the array indices in ascending numeric order, then the other
  categories in the order of their first occurrence. \<open>summary\<close> is the text of a commit
  that has a hash and a subject: the flag prefix, the trimmed subject and the short hash in
  parentheses, subject and hash with their links. \<open>commit_line\<close> is the entry of such a
  commit under a bullet: the collapsible block in the group \<open>breaking\<close>, the bullet and the
  summary in every other group. A category of several commits gets a line of its own and
  its commits the bullet \<open>  *\<close>; otherwise the category stands in the bullet of its commit.
  A section is the heading of the type, an empty line, the lines of its categories and an
  empty line; the document is the heading, an empty line and the sections.
\<close>

definition type_keys :: "bool \<Rightarrow> commit list \<Rightarrow> string list" where
  "type_keys allow cs = sort (first_seen (map (resolve_type allow) cs))"

definition category_keys :: "bool \<Rightarrow> commit list \<Rightarrow> string \<Rightarrow> string list" where
  "category_keys allow cs ty =
     sort_key decimal (filter array_index (categories_of allow cs ty))
     @ filter (\<lambda>k. \<not> array_index k) (categories_of allow cs ty)"

definition summary :: "options \<Rightarrow> string \<Rightarrow> commit \<Rightarrow> string" where
  "summary opts ty c =
     breaking_prefix c @ trim (snd (linked opts ty (the (hash c)) (the (subject c))))
     @ '' ('' @ fst (linked opts ty (the (hash c)) (the (subject c))) @ '')''"

definition commit_line :: "options \<Rightarrow> string \<Rightarrow> string \<Rightarrow> commit \<Rightarrow> string" where
  "commit_line opts ty bullet c =
     (if ty = ''breaking''
      then (if bullet = ''*'' then '' '' else bullet @ '' \<newline>   '')
        @ ''* <details>\<newline>      <summary>'' @ summary opts ty c @ ''</summary>\<newline>\<newline>''
        @ replaceAll (''      '' @ strip_trailers (body c)) (CHR 0x0A) ''\<newline>      ''
        @ ''</details>''
      else bullet @ '' '' @ summary opts ty c)"

definition category_lines :: "options \<Rightarrow> string \<Rightarrow> string \<Rightarrow> commit list \<Rightarrow> string list" where
  "category_lines opts ty cat commits =
     (if 1 < length commits \<and> cat \<noteq> []
      then (''* **'' @ cat @ '':**'') # map (commit_line opts ty ''  *'') commits
      else map (commit_line opts ty (if cat \<noteq> [] then ''* **'' @ cat @ '':**'' else ''*'')) commits)"

definition section_lines :: "options \<Rightarrow> commit list \<Rightarrow> string \<Rightarrow> string list" where
  "section_lines opts cs ty =
     [''##### '' @ typeDescription (allowUnknown opts) ty, []]
     @ concat (map (\<lambda>cat. category_lines opts ty cat (bucket (allowUnknown opts) cs ty cat))
         (category_keys (allowUnknown opts) cs ty))
     @ [[]]"

definition document :: "options \<Rightarrow> string option \<Rightarrow> string \<Rightarrow> commit list \<Rightarrow> string" where
  "document opts version date cs =
     join ([heading opts version date, []]
       @ concat (map (section_lines opts cs) (type_keys (allowUnknown opts) cs)) @ [[]])"

text \<open>
  The text behind the line of a marker, cut the way the regular expressions take it: an
  element \<open>(j, l)\<close> stands for a run of \<open>j\<close> line feeds followed by the text \<open>l\<close>, which
  holds no line terminator. The cut is \<open>greedy\<close> when every run and every text is as long
  as it can be: behind a text comes the end of the string, a carriage return or, only
  when the text is not empty, a line feed.
\<close>

fun lines_text :: "(nat \<times> string) list \<Rightarrow> string" where
  "lines_text [] = []"
| "lines_text ((j, l) # ls) = replicate j (CHR 0x0A) @ l @ lines_text ls"

fun greedy :: "(nat \<times> string) list \<Rightarrow> string \<Rightarrow> bool" where
  "greedy [] rest = True"
| "greedy ((j, l) # ls) rest =
     (list_all dot l
      \<and> (lines_text ls @ rest = [] \<or> hd (lines_text ls @ rest) = CHR 0x0D
         \<or> hd (lines_text ls @ rest) = CHR 0x0A \<and> l \<noteq> [])
      \<and> greedy ls rest)"

section \<open>Properties\<close>

subsection \<open>String primitives\<close>

lemma starts_with_iff_prefix: "starts_with s p \<longleftrightarrow> prefix p s"
  by (induction s p rule: starts_with.induct) auto

lemma index_from_lower: "index_from i s p = -1 \<or> i \<le> index_from i s p"
  by (induction i s p rule: index_from.induct) auto

lemma index_from_found:
  "0 \<le> i \<Longrightarrow> index_from i s p \<noteq> -1 \<longleftrightarrow> (\<exists>u v. s = u @ p @ v)"
proof (induction i s p rule: index_from.induct)
  case (1 i p)
  then show ?case by auto
next
  case (2 i c cs p)
  show ?case
  proof (cases "starts_with (c # cs) p")
    case True
    then obtain v where "c # cs = p @ v"
      by (auto simp: starts_with_iff_prefix prefix_def)
    then have "c # cs = [] @ p @ v" by simp
    then have "\<exists>u v. c # cs = u @ p @ v" by blast
    with True 2 show ?thesis by auto
  next
    case False
    have "(\<exists>u v. c # cs = u @ p @ v) \<longleftrightarrow> (\<exists>u v. cs = u @ p @ v)"
    proof
      assume "\<exists>u v. c # cs = u @ p @ v"
      then obtain u v where uv: "c # cs = u @ p @ v" by blast
      show "\<exists>u v. cs = u @ p @ v"
      proof (cases u)
        case Nil
        with uv have "prefix p (c # cs)" by (simp add: prefix_def)
        with False show ?thesis by (simp add: starts_with_iff_prefix)
      next
        case (Cons a u')
        with uv have "cs = u' @ p @ v" by simp
        then show ?thesis by blast
      qed
    next
      assume "\<exists>u v. cs = u @ p @ v"
      then obtain u v where "cs = u @ p @ v" by blast
      then have "c # cs = (c # u) @ p @ v" by simp
      then show "\<exists>u v. c # cs = u @ p @ v" by blast
    qed
    moreover from 2 False have "index_from (i + 1) cs p \<noteq> -1 \<longleftrightarrow> (\<exists>u v. cs = u @ p @ v)"
      by simp
    ultimately show ?thesis using False by simp
  qed
qed

lemma indexOf_found: "indexOf s p \<noteq> -1 \<longleftrightarrow> (\<exists>u v. s = u @ p @ v)"
  unfolding indexOf_def by (rule index_from_found) simp

lemma slice_from_last4: "slice_from s (-4) = drop (length s - 4) s"
  by (simp add: slice_from_def slice_index_def nat_diff_distrib' max_def)

lemma slice_drop_last4: "slice s 0 (-4) = take (length s - 4) s"
  by (simp add: slice_def slice_index_def nat_diff_distrib' max_def)

lemma ends_with_git: "slice_from s (-4) = ''.git'' \<longleftrightarrow> suffix ''.git'' s"
proof
  assume h: "slice_from s (-4) = ''.git''"
  have "s = take (length s - 4) s @ drop (length s - 4) s" by simp
  with h have "s = take (length s - 4) s @ ''.git''" by (simp add: slice_from_last4)
  then show "suffix ''.git'' s" unfolding suffix_def by blast
next
  assume "suffix ''.git'' s"
  then obtain u where "s = u @ ''.git''" unfolding suffix_def by blast
  then show "slice_from s (-4) = ''.git''" by (simp add: slice_from_last4)
qed

subsection \<open>getCommitUrl\<close>

text \<open>
  Claim C3. \<open>getCommitUrl baseUrl commitHash\<close> is the base URL, a slash, the segment, a
  slash and the hash. The segment is \<open>commits\<close> when the base URL contains \<open>bitbucket\<close> and
  \<open>commit\<close> otherwise. The last four characters of the base URL are dropped first exactly
  when it contains \<open>gitlab\<close> and ends in \<open>.git\<close>. The three examples of the specification
  come out as it says.
\<close>

theorem getCommitUrl_spec:
  "getCommitUrl baseUrl commitHash =
     (if (\<exists>u v. baseUrl = u @ ''gitlab'' @ v) \<and> suffix ''.git'' baseUrl
      then take (length baseUrl - 4) baseUrl else baseUrl)
     @ ''/'' @ (if (\<exists>u v. baseUrl = u @ ''bitbucket'' @ v) then ''commits'' else ''commit'')
     @ ''/'' @ commitHash
   \<and> suffix ''/commits/abc123'' (getCommitUrl ''https://bitbucket.org/x/y'' ''abc123'')
   \<and> suffix ''/commit/abc123'' (getCommitUrl ''https://github.com/x/y'' ''abc123'')
   \<and> getCommitUrl ''https://gitlab.com/x/y.git'' ''abc123''
       = ''https://gitlab.com/x/y/commit/abc123''"
proof (intro conjI)
  show "getCommitUrl baseUrl commitHash =
     (if (\<exists>u v. baseUrl = u @ ''gitlab'' @ v) \<and> suffix ''.git'' baseUrl
      then take (length baseUrl - 4) baseUrl else baseUrl)
     @ ''/'' @ (if (\<exists>u v. baseUrl = u @ ''bitbucket'' @ v) then ''commits'' else ''commit'')
     @ ''/'' @ commitHash"
    unfolding getCommitUrl_def Let_def indexOf_found ends_with_git slice_drop_last4 by simp
  have b: "getCommitUrl ''https://bitbucket.org/x/y'' ''abc123''
      = ''https://bitbucket.org/x/y/commits/abc123''"
    by code_simp
  show "suffix ''/commits/abc123'' (getCommitUrl ''https://bitbucket.org/x/y'' ''abc123'')"
    unfolding b suffix_def by simp
  have g: "getCommitUrl ''https://github.com/x/y'' ''abc123''
      = ''https://github.com/x/y/commit/abc123''"
    by code_simp
  show "suffix ''/commit/abc123'' (getCommitUrl ''https://github.com/x/y'' ''abc123'')"
    unfolding g suffix_def by simp
  show "getCommitUrl ''https://gitlab.com/x/y.git'' ''abc123''
      = ''https://gitlab.com/x/y/commit/abc123''"
    by code_simp
qed

subsection \<open>Trailers of the body\<close>

lemma replace_trailer_nonempty: "b \<noteq> [] \<Longrightarrow> replace_trailer m k b \<noteq> []"
  by (cases b) (simp_all add: replace_trailer.simps)

lemma strip_trailers_order:
  "b \<noteq> [] \<Longrightarrow> strip_trailers (Some b) =
     replace_trailer ''Closes'' 2
       (replace_trailer ''See'' 3 (replace_trailer ''END BREAKING CHANGE'' 4 b))"
  by (simp add: strip_trailers_def Let_def truthy_def property_key_def replace_trailer_nonempty)

lemma dropWhile_dot_line:
  "list_all dot l \<Longrightarrow> r = [] \<or> \<not> dot (hd r) \<Longrightarrow> dropWhile dot (l @ r) = r"
  by (induction l) (auto simp: dropWhile_eq_self_iff)

lemma dropWhile_newline_run:
  "r = [] \<or> \<not> newline (hd r) \<Longrightarrow> dropWhile newline (replicate j (CHR 0x0A) @ r) = r"
  by (induction j) (auto simp: dropWhile_eq_self_iff newline_def)

lemma replace_trailer_match:
  assumes "0 < n" "m \<noteq> []" "CHR 0x0A \<notin> set m"
  shows "replace_trailer m k (replicate n (CHR 0x0A) @ m @ t)
       = ''\<newline> '' @ replace_trailer m k (skip_lines k (dropWhile dot t))"
proof -
  from assms(1) obtain n' where n: "n = Suc n'" by (cases n) auto
  have "\<not> newline (hd (m @ t))" using assms(2,3) by (cases m) (auto simp: newline_def)
  then have d: "dropWhile newline (replicate n' (CHR 0x0A) @ m @ t) = m @ t"
    using assms(2) by (intro dropWhile_newline_run) simp
  have s: "starts_with (m @ t) m" by (simp add: starts_with_iff_prefix)
  show ?thesis
    unfolding n by (simp add: replace_trailer.simps(2) d s newline_def)
qed

lemma all_newlines_snoc:
  "\<forall>x \<in> set (c # w). x = CHR 0x0A \<Longrightarrow> \<exists>w'. c # w = w' @ [CHR 0x0A]"
proof -
  assume a: "\<forall>x \<in> set (c # w). x = CHR 0x0A"
  have "c # w = butlast (c # w) @ [last (c # w)]" by simp
  moreover have "last (c # w) = CHR 0x0A" using a last_in_set [of "c # w"] by blast
  ultimately show ?thesis by metis
qed

lemma replace_trailer_copy:
  assumes "m \<noteq> []" "CHR 0x0A \<notin> set m"
    and "t = [] \<or> hd t = CHR 0x0A"
    and "pre = [] \<or> last pre \<noteq> CHR 0x0A"
    and "\<not> (\<exists>u v. pre = u @ CHR 0x0A # m @ v)"
  shows "replace_trailer m k (pre @ t) = pre @ replace_trailer m k t"
  using assms(4,5)
proof (induction pre)
  case Nil
  show ?case by simp
next
  case (Cons c pre)
  have nomatch: "\<not> (newline c \<and> starts_with (dropWhile newline (pre @ t)) m)"
  proof
    assume a: "newline c \<and> starts_with (dropWhile newline (pre @ t)) m"
    then have c: "c = CHR 0x0A" by (simp add: newline_def)
    with Cons.prems(1) have pre: "pre \<noteq> []" "last pre \<noteq> CHR 0x0A"
      by (auto split: if_splits)
    then have "last pre \<in> set pre" "\<not> newline (last pre)" by (simp_all add: newline_def)
    then have dw: "dropWhile newline (pre @ t) = dropWhile newline pre @ t"
      by (rule dropWhile_append1)
    define w where "w = takeWhile newline pre"
    define r where "r = dropWhile newline pre"
    have split: "pre = w @ r" by (simp add: w_def r_def)
    have w: "\<forall>x \<in> set (c # w). x = CHR 0x0A"
      using c set_takeWhileD [of _ newline pre] by (auto simp: w_def newline_def)
    from a dw have "prefix m (r @ t)" by (simp add: starts_with_iff_prefix r_def)
    then have "prefix m r \<or> (\<exists>us. m = r @ us \<and> prefix us t)"
      by (simp add: prefix_append)
    then have "prefix m r \<or> (\<exists>us. m = r @ us \<and> us \<noteq> [] \<and> prefix us t)"
      by (metis append_Nil2 prefix_order.order_refl)
    then consider (inside) "prefix m r" | (across) m' where "m = r @ m'" "m' \<noteq> []" "prefix m' t"
      by blast
    then show False
    proof cases
      case inside
      then obtain v where v: "r = m @ v" by (auto simp: prefix_def)
      from all_newlines_snoc [OF w] obtain w' where w': "c # w = w' @ [CHR 0x0A]" ..
      have "c # pre = (c # w) @ r" by (simp add: split)
      also have "\<dots> = (w' @ [CHR 0x0A]) @ m @ v" by (simp only: w' v)
      also have "\<dots> = w' @ CHR 0x0A # m @ v" by simp
      finally have "\<exists>u v. c # pre = u @ CHR 0x0A # m @ v" by blast
      with Cons.prems(2) show False by blast
    next
      case across
      from across(2,3) have "t \<noteq> []" by auto
      with assms(3) have "hd t = CHR 0x0A" by simp
      with across(2,3) \<open>t \<noteq> []\<close> have "hd m' = CHR 0x0A"
        by (cases m'; cases t) auto
      with across(2) have "CHR 0x0A \<in> set m'" by (cases m') auto
      with across(1) have "CHR 0x0A \<in> set m" by simp
      with assms(2) show False by simp
    qed
  qed
  have inner: "pre = [] \<or> last pre \<noteq> CHR 0x0A"
    using Cons.prems(1) by (auto split: if_splits)
  have inner2: "\<not> (\<exists>u v. pre = u @ CHR 0x0A # m @ v)"
  proof
    assume "\<exists>u v. pre = u @ CHR 0x0A # m @ v"
    then obtain u v where "pre = u @ CHR 0x0A # m @ v" by blast
    then have "c # pre = (c # u) @ CHR 0x0A # m @ v" by simp
    with Cons.prems(2) show False by blast
  qed
  have "replace_trailer m k (c # (pre @ t)) = c # replace_trailer m k (pre @ t)"
    by (subst replace_trailer.simps(2)) (simp only: nomatch if_False)
  with Cons.IH [OF inner inner2] show ?case by simp
qed


lemma no_newline_no_marker:
  "CHR 0x0A \<notin> set pre \<Longrightarrow> \<not> (\<exists>u v. pre = u @ CHR 0x0A # m @ v)"
  by auto

lemma skip_lines_greedy:
  "length ls = k \<Longrightarrow> greedy ls rest \<Longrightarrow> skip_lines k (lines_text ls @ rest) = rest"
proof (induction ls arbitrary: k)
  case Nil
  then show ?case by simp
next
  case (Cons p ls)
  obtain j l where p: "p = (j, l)" by (cases p)
  from Cons.prems(1) obtain k' where k: "k = Suc k'" "length ls = k'" by (cases k) auto
  let ?t = "lines_text ls @ rest"
  from Cons.prems(2) p have l: "list_all dot l"
    and t: "?t = [] \<or> hd ?t = CHR 0x0D \<or> hd ?t = CHR 0x0A \<and> l \<noteq> []"
    and g: "greedy ls rest" by simp_all
  have "l @ ?t = [] \<or> \<not> newline (hd (l @ ?t))"
  proof (cases l)
    case Nil
    with t show ?thesis by (auto simp: newline_def)
  next
    case (Cons x xs)
    with l show ?thesis by (simp add: dot_def newline_def)
  qed
  then have "dropWhile newline (replicate j (CHR 0x0A) @ l @ ?t) = l @ ?t"
    by (rule dropWhile_newline_run)
  moreover have "dropWhile dot (l @ ?t) = ?t"
    using l t by (intro dropWhile_dot_line) (auto simp: dot_def)
  moreover have "skip_lines k' ?t = rest" using k(2) g by (rule Cons.IH)
  ultimately show ?case by (simp add: p k)
qed

lemma takeWhile_newline_run:
  "takeWhile newline t = replicate (length (takeWhile newline t)) (CHR 0x0A)"
  by (induction t) (auto simp: newline_def)

lemma hd_dropWhile_not: "dropWhile P t = [] \<or> \<not> P (hd (dropWhile P t))"
  by (induction t) simp_all

lemma list_all_takeWhile: "list_all P (takeWhile P t)"
  by (induction t) simp_all

lemma lines_cut:
  "\<exists>ls rest. t = lines_text ls @ rest \<and> length ls = k \<and> greedy ls rest"
proof (induction k arbitrary: t)
  case 0
  have "t = lines_text [] @ t \<and> length ([] :: (nat \<times> string) list) = 0 \<and> greedy [] t" by simp
  then show ?case by blast
next
  case (Suc k)
  define j where "j = length (takeWhile newline t)"
  define l where "l = takeWhile dot (dropWhile newline t)"
  define t' where "t' = dropWhile dot (dropWhile newline t)"
  from Suc [of t'] obtain ls rest
    where c: "t' = lines_text ls @ rest" "length ls = k" "greedy ls rest" by blast
  have run: "replicate j (CHR 0x0A) = takeWhile newline t"
    unfolding j_def by (rule takeWhile_newline_run [symmetric])
  have "lines_text ((j, l) # ls) @ rest = takeWhile newline t @ l @ t'"
    by (simp add: run c(1))
  also have "\<dots> = t" by (simp add: l_def t'_def)
  finally have t: "t = lines_text ((j, l) # ls) @ rest" by (rule sym)
  have l: "list_all dot l"
    unfolding l_def by (rule list_all_takeWhile)
  have nd: "t' = [] \<or> \<not> dot (hd t')"
    unfolding t'_def by (rule hd_dropWhile_not)
  have nn: "l @ t' = [] \<or> \<not> newline (hd (l @ t'))"
    using hd_dropWhile_not [of newline t] by (simp add: l_def t'_def)
  have "t' = [] \<or> hd t' = CHR 0x0D \<or> hd t' = CHR 0x0A \<and> l \<noteq> []"
  proof (cases "t' = []")
    case True
    then show ?thesis by simp
  next
    case False
    with nd have h: "hd t' = CHR 0x0A \<or> hd t' = CHR 0x0D" by (auto simp: dot_def)
    show ?thesis
    proof (cases "l = []")
      case True
      with nn False have "hd t' \<noteq> CHR 0x0A" by (simp add: newline_def)
      with h show ?thesis by simp
    next
      case False
      with h show ?thesis by auto
    qed
  qed
  then have "lines_text ls @ rest = [] \<or> hd (lines_text ls @ rest) = CHR 0x0D
      \<or> hd (lines_text ls @ rest) = CHR 0x0A \<and> l \<noteq> []"
    unfolding c(1) .
  with l c(3) have g: "greedy ((j, l) # ls) rest" by simp
  have "length ((j, l) # ls) = Suc k" using c(2) by simp
  with t g show ?case by blast
qed

lemma marker_line_cut:
  "\<exists>l0 ls rest. t = l0 @ lines_text ls @ rest \<and> list_all dot l0 \<and> length ls = k
     \<and> greedy ls rest \<and> (lines_text ls @ rest = [] \<or> \<not> dot (hd (lines_text ls @ rest)))"
proof -
  from lines_cut [of "dropWhile dot t" k] obtain ls rest
    where c: "dropWhile dot t = lines_text ls @ rest" "length ls = k" "greedy ls rest" by blast
  have "takeWhile dot t @ dropWhile dot t = t" by simp
  then have "t = takeWhile dot t @ lines_text ls @ rest" unfolding c(1) by (rule sym)
  moreover have "list_all dot (takeWhile dot t)" by (rule list_all_takeWhile)
  moreover have "lines_text ls @ rest = [] \<or> \<not> dot (hd (lines_text ls @ rest))"
    using hd_dropWhile_not [of dot t] unfolding c(1) .
  ultimately show ?thesis using c(2,3) by blast
qed

lemma no_marker_unchanged:
  "\<not> (\<exists>u v. s = u @ CHR 0x0A # m @ v) \<Longrightarrow> replace_trailer m k s = s"
proof (induction s)
  case Nil
  show ?case by (simp add: replace_trailer.simps)
next
  case (Cons c cs)
  have nomatch: "\<not> (newline c \<and> starts_with (dropWhile newline cs) m)"
  proof
    assume a: "newline c \<and> starts_with (dropWhile newline cs) m"
    then obtain v where v: "dropWhile newline cs = m @ v"
      by (auto simp: starts_with_iff_prefix prefix_def)
    have w: "\<forall>x \<in> set (c # takeWhile newline cs). x = CHR 0x0A"
      using a set_takeWhileD [of _ newline cs] by (auto simp: newline_def)
    from all_newlines_snoc [OF w] obtain w' where w': "c # takeWhile newline cs = w' @ [CHR 0x0A]" ..
    have "c # cs = (c # takeWhile newline cs) @ dropWhile newline cs" by simp
    also have "\<dots> = (w' @ [CHR 0x0A]) @ m @ v" by (simp only: w' v)
    also have "\<dots> = w' @ CHR 0x0A # m @ v" by simp
    finally have "\<exists>u v. c # cs = u @ CHR 0x0A # m @ v" by blast
    with Cons.prems show False by blast
  qed
  have inner: "\<not> (\<exists>u v. cs = u @ CHR 0x0A # m @ v)"
  proof
    assume "\<exists>u v. cs = u @ CHR 0x0A # m @ v"
    then obtain u v where "cs = u @ CHR 0x0A # m @ v" by blast
    then have "c # cs = (c # u) @ CHR 0x0A # m @ v" by simp
    with Cons.prems show False by blast
  qed
  have "replace_trailer m k (c # cs) = c # replace_trailer m k cs"
    by (subst replace_trailer.simps(2)) (simp only: nomatch if_False)
  with Cons.IH [OF inner] show ?case by simp
qed

lemma trailing_newlines:
  "\<exists>pre j. u = pre @ replicate j (CHR 0x0A) \<and> (pre = [] \<or> last pre \<noteq> CHR 0x0A)"
proof (induction u rule: rev_induct)
  case Nil
  have "[] = [] @ replicate 0 (CHR 0x0A) \<and> (([] :: string) = [] \<or> last [] \<noteq> CHR 0x0A)" by simp
  then show ?case by blast
next
  case (snoc x xs)
  show ?case
  proof (cases "x = CHR 0x0A")
    case True
    from snoc obtain pre j where p: "xs = pre @ replicate j (CHR 0x0A)"
      "pre = [] \<or> last pre \<noteq> CHR 0x0A" by blast
    have "xs @ [x] = pre @ replicate (Suc j) (CHR 0x0A)"
      using True p(1) by (simp add: replicate_append_same)
    with p(2) show ?thesis by blast
  next
    case False
    then have "xs @ [x] = (xs @ [x]) @ replicate 0 (CHR 0x0A)
        \<and> (xs @ [x] = [] \<or> last (xs @ [x]) \<noteq> CHR 0x0A)" by simp
    then show ?thesis by blast
  qed
qed

lemma first_marker:
  "s = u @ CHR 0x0A # m @ v \<Longrightarrow>
   \<exists>pre n t. s = pre @ replicate n (CHR 0x0A) @ m @ t \<and> 0 < n
     \<and> (pre = [] \<or> last pre \<noteq> CHR 0x0A) \<and> \<not> (\<exists>u v. pre = u @ CHR 0x0A # m @ v)"
proof (induction u arbitrary: v rule: length_induct)
  case (1 u)
  from trailing_newlines [of u] obtain pre j where p: "u = pre @ replicate j (CHR 0x0A)"
    "pre = [] \<or> last pre \<noteq> CHR 0x0A" by blast
  show ?case
  proof (cases "\<exists>u' v'. pre = u' @ CHR 0x0A # m @ v'")
    case False
    have "s = pre @ replicate (Suc j) (CHR 0x0A) @ m @ v"
      using "1.prems" p(1) by (simp add: replicate_append_same)
    with False p(2) show ?thesis by blast
  next
    case True
    then obtain u' v' where pre: "pre = u' @ CHR 0x0A # m @ v'" by blast
    then have len: "length u' < length u" by (simp add: p(1))
    have eq: "s = u' @ CHR 0x0A # m @ (v' @ replicate j (CHR 0x0A) @ CHR 0x0A # m @ v)"
      using "1.prems" p(1) pre by simp
    from "1.IH" [rule_format, OF len eq] show ?thesis .
  qed
qed

text \<open>
  Claim C6, as amended. A body that is not empty goes through three substitutions in
  this order: the blocks that start with \<open>END BREAKING CHANGE\<close>, then those with \<open>See\<close>,
  then those with \<open>Closes\<close>. A substitution leaves a body as it is when the marker
  follows no line feed in it. Otherwise the body has a first run of line feeds followed
  by the marker, and the block that starts there spans the run, the marker, the rest of
  the marker's line and then four times for \<open>END BREAKING CHANGE\<close>, three times for \<open>See\<close>
  and twice for \<open>Closes\<close> a run of line feeds and the text up to the next line
  terminator, each as long as it can be and possibly empty (every text behind a marker
  can be cut so): that is up to four, three or two further lines that are not empty, with
  the line feeds before them and, when fewer lines follow, the line feeds behind the last
  one; the block stops before a carriage return. The block is replaced by a line feed and
  a space, the text before it is kept, and the substitution goes on behind it.
\<close>

theorem trailers_stripped:
  "(b \<noteq> [] \<longrightarrow>
      strip_trailers (Some b) =
        replace_trailer ''Closes'' 2
          (replace_trailer ''See'' 3 (replace_trailer ''END BREAKING CHANGE'' 4 b)))
   \<and> ((m, k) \<in> set [(''END BREAKING CHANGE'', 4), (''See'', 3), (''Closes'', 2)] \<longrightarrow>
        (\<not> (\<exists>u v. s = u @ CHR 0x0A # m @ v) \<longrightarrow> replace_trailer m k s = s)
        \<and> ((\<exists>u v. s = u @ CHR 0x0A # m @ v) \<longrightarrow>
             (\<exists>pre n t. s = pre @ replicate n (CHR 0x0A) @ m @ t \<and> 0 < n
                \<and> (pre = [] \<or> last pre \<noteq> CHR 0x0A) \<and> \<not> (\<exists>u v. pre = u @ CHR 0x0A # m @ v)))
        \<and> (\<exists>l0 ls rest. t = l0 @ lines_text ls @ rest \<and> list_all dot l0 \<and> length ls = k
             \<and> greedy ls rest \<and> (lines_text ls @ rest = [] \<or> \<not> dot (hd (lines_text ls @ rest))))
        \<and> ((pre = [] \<or> last pre \<noteq> CHR 0x0A) \<and> \<not> (\<exists>u v. pre = u @ CHR 0x0A # m @ v) \<and>
            0 < n \<and> list_all dot l0 \<and> length ls = k \<and> greedy ls rest \<and>
            (lines_text ls @ rest = [] \<or> \<not> dot (hd (lines_text ls @ rest))) \<longrightarrow>
            replace_trailer m k (pre @ replicate n (CHR 0x0A) @ m @ l0 @ lines_text ls @ rest)
            = pre @ ''\<newline> '' @ replace_trailer m k rest))"
proof (intro conjI impI)
  assume "b \<noteq> []"
  then show "strip_trailers (Some b) =
        replace_trailer ''Closes'' 2
          (replace_trailer ''See'' 3 (replace_trailer ''END BREAKING CHANGE'' 4 b))"
    by (rule strip_trailers_order)
next
  assume "\<not> (\<exists>u v. s = u @ CHR 0x0A # m @ v)"
  then show "replace_trailer m k s = s" by (rule no_marker_unchanged)
next
  assume "\<exists>u v. s = u @ CHR 0x0A # m @ v"
  then obtain u v where "s = u @ CHR 0x0A # m @ v" by blast
  then show "\<exists>pre n t. s = pre @ replicate n (CHR 0x0A) @ m @ t \<and> 0 < n
      \<and> (pre = [] \<or> last pre \<noteq> CHR 0x0A) \<and> \<not> (\<exists>u v. pre = u @ CHR 0x0A # m @ v)"
    by (rule first_marker)
next
  show "\<exists>l0 ls rest. t = l0 @ lines_text ls @ rest \<and> list_all dot l0 \<and> length ls = k
      \<and> greedy ls rest \<and> (lines_text ls @ rest = [] \<or> \<not> dot (hd (lines_text ls @ rest)))"
    by (rule marker_line_cut)
next
  let ?block = "lines_text ls @ rest"
  assume mk: "(m, k) \<in> set [(''END BREAKING CHANGE'', 4), (''See'', 3), (''Closes'', 2)]"
  assume a: "(pre = [] \<or> last pre \<noteq> CHR 0x0A) \<and> \<not> (\<exists>u v. pre = u @ CHR 0x0A # m @ v) \<and>
            0 < n \<and> list_all dot l0 \<and> length ls = k \<and> greedy ls rest \<and>
            (lines_text ls @ rest = [] \<or> \<not> dot (hd (lines_text ls @ rest)))"
  from mk have m: "m \<noteq> []" "CHR 0x0A \<notin> set m" by auto
  from a have n: "0 < n" by simp
  from a have pre: "pre = [] \<or> last pre \<noteq> CHR 0x0A"
    "\<not> (\<exists>u v. pre = u @ CHR 0x0A # m @ v)" by simp_all
  from a have l0: "list_all dot l0" by simp
  from a have ls: "length ls = k" "greedy ls rest" "?block = [] \<or> \<not> dot (hd ?block)"
    by simp_all
  from n have "hd (replicate n (CHR 0x0A) @ m @ l0 @ ?block) = CHR 0x0A"
    by (cases n) simp_all
  then have "replace_trailer m k (pre @ replicate n (CHR 0x0A) @ m @ l0 @ ?block)
      = pre @ replace_trailer m k (replicate n (CHR 0x0A) @ m @ l0 @ ?block)"
    using m pre by (intro replace_trailer_copy) simp_all
  also have "replace_trailer m k (replicate n (CHR 0x0A) @ m @ l0 @ ?block)
      = ''\<newline> '' @ replace_trailer m k (skip_lines k (dropWhile dot (l0 @ ?block)))"
    using n m by (rule replace_trailer_match)
  also have "dropWhile dot (l0 @ ?block) = ?block"
    using l0 ls(3) by (rule dropWhile_dot_line)
  also have "skip_lines k ?block = rest"
    using ls(1,2) by (rule skip_lines_greedy)
  finally show "replace_trailer m k (pre @ replicate n (CHR 0x0A) @ m @ l0 @ lines_text ls @ rest)
       = pre @ ''\<newline> '' @ replace_trailer m k rest" by simp
qed

theorem trailers_stripped_witness:
  "strip_trailers (Some ''fix'') = ''fix''
   \<and> replace_trailer ''Closes'' 2 ''fix\<newline>\<newline>Closes #1\<newline>l1\<newline>\<newline>l2\<newline>l3'' = ''fix\<newline> \<newline>l3''
   \<and> replace_trailer ''Closes'' 2 ''fix\<newline>Closes #1\<newline>'' = ''fix\<newline> ''
   \<and> replace_trailer ''See'' 3 ''fix\<newline>See #2\<newline>\<newline>more\<newline>\<newline>\<newline>'' = ''fix\<newline> ''
   \<and> replace_trailer ''See'' 3 (''fix\<newline>See #2\<newline>more\<newline>\<newline>'' @ CHR 0x0D # ''\<newline>x'')
       = ''fix\<newline> '' @ CHR 0x0D # ''\<newline>x''"
proof -
  have p: "\<not> (\<exists>u v. ''fix'' = u @ CHR 0x0A # m @ v)" for m
    by (rule no_newline_no_marker) simp
  have q: "\<not> (\<exists>u v. CHR 0x0D # ''\<newline>x'' = u @ CHR 0x0A # ''See'' @ v)"
  proof
    assume "\<exists>u v. CHR 0x0D # ''\<newline>x'' = u @ CHR 0x0A # ''See'' @ v"
    then obtain u v where "CHR 0x0D # ''\<newline>x'' = u @ CHR 0x0A # ''See'' @ v" by blast
    then have "length (CHR 0x0D # ''\<newline>x'') = length (u @ CHR 0x0A # ''See'' @ v)" by simp
    then show False by simp
  qed
  have a: "strip_trailers (Some ''fix'') = ''fix''"
    using p [of "''Closes''"] p [of "''See''"] p [of "''END BREAKING CHANGE''"]
      trailers_stripped [where b = "''fix''" and m = "''Closes''" and k = 2 and s = "''fix''"]
      trailers_stripped [where m = "''See''" and k = 3 and s = "''fix''"]
      trailers_stripped [where m = "''END BREAKING CHANGE''" and k = 4 and s = "''fix''"]
    by simp
  have b: "replace_trailer ''Closes'' 2 ''fix\<newline>\<newline>Closes #1\<newline>l1\<newline>\<newline>l2\<newline>l3'' = ''fix\<newline> \<newline>l3''"
    using p [of "''Closes''"]
      trailers_stripped [where m = "''Closes''" and k = 2
        and pre = "''fix''" and n = 2 and ?l0.0 = "'' #1''" and ls = "[(1, ''l1''), (2, ''l2'')]"
        and rest = "''\<newline>l3''" and s = "''\<newline>l3''"]
    by (simp add: dot_def replace_trailer.simps newline_def numeral_2_eq_2)
  have c: "replace_trailer ''Closes'' 2 ''fix\<newline>Closes #1\<newline>'' = ''fix\<newline> ''"
    using p [of "''Closes''"]
      trailers_stripped [where m = "''Closes''" and k = 2
        and pre = "''fix''" and n = 1 and ?l0.0 = "'' #1''" and ls = "[(1, []), (0, [])]"
        and rest = "[]"]
    by (simp add: dot_def replace_trailer.simps)
  have d: "replace_trailer ''See'' 3 ''fix\<newline>See #2\<newline>\<newline>more\<newline>\<newline>\<newline>'' = ''fix\<newline> ''"
    using p [of "''See''"]
      trailers_stripped [where m = "''See''" and k = 3
        and pre = "''fix''" and n = 1 and ?l0.0 = "'' #2''"
        and ls = "[(2, ''more''), (3, []), (0, [])]" and rest = "[]"]
    by (simp add: dot_def replace_trailer.simps numeral_2_eq_2 numeral_3_eq_3)
  have e: "replace_trailer ''See'' 3 (''fix\<newline>See #2\<newline>more\<newline>\<newline>'' @ CHR 0x0D # ''\<newline>x'')
       = ''fix\<newline> '' @ CHR 0x0D # ''\<newline>x''"
    using p [of "''See''"] q
      trailers_stripped [where m = "''See''" and k = 3
        and pre = "''fix''" and n = 1 and ?l0.0 = "'' #2''"
        and ls = "[(1, ''more''), (2, []), (0, [])]" and rest = "CHR 0x0D # ''\<newline>x''"]
      trailers_stripped [where m = "''See''" and k = 3 and s = "CHR 0x0D # ''\<newline>x''"]
    by (simp add: dot_def numeral_2_eq_2 numeral_3_eq_3)
  from a b c d e show ?thesis by simp
qed

text \<open>
  The claim as stated gives every block five further lines. Of three lines behind a
  \<open>Closes\<close> line the third is kept (five further lines would remove it), and of five lines
  behind an \<open>END BREAKING CHANGE\<close> line the fifth is kept.
\<close>

theorem trailers_stripped_counterexample:
  "strip_trailers (Some ''fix\<newline>Closes #1\<newline>l1\<newline>l2\<newline>l3'') = ''fix\<newline> \<newline>l3''
   \<and> replace_trailer ''Closes'' 5 ''fix\<newline>Closes #1\<newline>l1\<newline>l2\<newline>l3'' = ''fix\<newline> ''
   \<and> strip_trailers (Some ''fix\<newline>END BREAKING CHANGE\<newline>l1\<newline>l2\<newline>l3\<newline>l4\<newline>l5'')
       = ''fix\<newline> \<newline>l5''"
  by code_simp

subsection \<open>Links to pull requests and commits\<close>

lemma takeWhile_digits:
  "list_all digit ds \<Longrightarrow> rest = [] \<or> \<not> digit (hd rest) \<Longrightarrow> takeWhile digit (ds @ rest) = ds"
  by (induction ds) (auto simp: takeWhile_eq_Nil_iff)

lemma dropWhile_digits:
  "list_all digit ds \<Longrightarrow> rest = [] \<or> \<not> digit (hd rest) \<Longrightarrow> dropWhile digit (ds @ rest) = rest"
  by (induction ds) (auto simp: dropWhile_eq_self_iff)

lemma nonzero_digit_digit: "nonzero_digit d \<Longrightarrow> digit d"
  by (auto simp: nonzero_digit_def digit_def less_eq_char_def)

lemma replace_PR_match:
  assumes "nonzero_digit d" "list_all digit ds" "rest = [] \<or> \<not> digit (hd rest)"
  shows "replace_PR f (CHR ''#'' # d # ds @ rest) = f (CHR ''#'' # d # ds) @ replace_PR f rest"
proof -
  have ds: "list_all digit (d # ds)" using assms(1,2) by (simp add: nonzero_digit_digit)
  have tw: "takeWhile digit ((d # ds) @ rest) = d # ds"
    using ds assms(3) by (rule takeWhile_digits)
  have dw: "dropWhile digit ((d # ds) @ rest) = rest"
    using ds assms(3) by (rule dropWhile_digits)
  have "replace_PR f (CHR ''#'' # ((d # ds) @ rest))
      = f (CHR ''#'' # takeWhile digit ((d # ds) @ rest))
        @ replace_PR f (dropWhile digit ((d # ds) @ rest))"
    using assms(1) by (subst replace_PR.simps(2)) simp
  then show ?thesis unfolding tw dw by simp
qed

lemma replace_PR_copy:
  assumes "\<not> (\<exists>u x v. pre = u @ CHR ''#'' # x # v \<and> nonzero_digit x)"
    and "t = [] \<or> \<not> nonzero_digit (hd t)"
  shows "replace_PR f (pre @ t) = pre @ replace_PR f t"
  using assms(1)
proof (induction pre)
  case Nil
  show ?case by simp
next
  case (Cons c pre)
  have inner: "\<not> (\<exists>u x v. pre = u @ CHR ''#'' # x # v \<and> nonzero_digit x)"
  proof
    assume "\<exists>u x v. pre = u @ CHR ''#'' # x # v \<and> nonzero_digit x"
    then obtain u x v where "pre = u @ CHR ''#'' # x # v" "nonzero_digit x" by blast
    then have "c # pre = (c # u) @ CHR ''#'' # x # v \<and> nonzero_digit x" by simp
    with Cons.prems show False by blast
  qed
  have nomatch: "\<not> (c = CHR ''#'' \<and> pre @ t \<noteq> [] \<and> nonzero_digit (hd (pre @ t)))"
  proof
    assume m: "c = CHR ''#'' \<and> pre @ t \<noteq> [] \<and> nonzero_digit (hd (pre @ t))"
    show False
    proof (cases pre)
      case Nil
      with m assms(2) show False by auto
    next
      case (Cons x v)
      with m have "c # pre = [] @ CHR ''#'' # x # v \<and> nonzero_digit x" by simp
      with Cons.prems show False by blast
    qed
  qed
  have "replace_PR f (c # (pre @ t)) = c # replace_PR f (pre @ t)"
    by (subst replace_PR.simps(2)) (simp only: nomatch if_False)
  with Cons.IH [OF inner] show ?case by simp
qed

lemma replace_PR_reference:
  assumes "\<not> (\<exists>u x v. pre = u @ CHR ''#'' # x # v \<and> nonzero_digit x)"
    and "nonzero_digit d" "list_all digit ds" "rest = [] \<or> \<not> digit (hd rest)"
  shows "replace_PR f (pre @ CHR ''#'' # d # ds @ rest)
       = pre @ f (CHR ''#'' # d # ds) @ replace_PR f rest"
proof -
  have "\<not> nonzero_digit (CHR ''#'')" by (simp add: nonzero_digit_def less_eq_char_def)
  then have "replace_PR f (pre @ CHR ''#'' # d # ds @ rest)
      = pre @ replace_PR f (CHR ''#'' # d # ds @ rest)"
    using assms(1) by (intro replace_PR_copy) simp_all
  then show ?thesis using assms(2-4) by (simp add: replace_PR_match)
qed

lemma no_hash_no_reference:
  "CHR ''#'' \<notin> set pre \<Longrightarrow> \<not> (\<exists>u x v. pre = u @ CHR ''#'' # x # v \<and> nonzero_digit x)"
  by auto

lemma linked_without_url: "\<not> truthy (repoUrl opts) \<Longrightarrow> linked opts ty h s = (take 8 h, s)"
  by (auto simp: linked_def truthy_def substring_def split: option.splits)

lemma linked_hash:
  \<open>repoUrl opts = Some url \<Longrightarrow> url \<noteq> [] \<Longrightarrow>
   fst (linked opts ty h s) =
     (if ty = ''breaking'' then ''<a href="'' @ getCommitUrl url h @ ''">'' @ take 8 h @ ''</a>''
      else ''['' @ take 8 h @ '']('' @ getCommitUrl url h @ '')'')\<close>
  by (simp add: linked_def substring_def)

lemma linked_subject:
  \<open>repoUrl opts = Some url \<Longrightarrow> url \<noteq> [] \<Longrightarrow>
   snd (linked opts ty h s) =
     (if ty = ''breaking''
      then replace_PR (\<lambda>pr. ''<a href="'' @ url @ ''/pull/'' @ slice_from pr 1 @ ''">'' @ pr @ ''</a>'') s
      else replace_PR (\<lambda>pr. ''['' @ pr @ '']('' @ url @ ''/pull/'' @ slice_from pr 1 @ '')'') s)\<close>
  by (simp add: linked_def)

lemma slice_from_1: "slice_from (c # cs) 1 = cs"
  by (simp add: slice_from_def slice_index_def)

subsection \<open>The line of one commit\<close>

lemma dropWhile_white_run:
  "list_all white_space ws \<Longrightarrow> \<not> white_space x \<Longrightarrow>
   dropWhile white_space (ws @ x # xs) = x # xs"
  by (induction ws) auto

lemma trim_block:
  assumes "list_all white_space ws" "\<not> white_space x" "\<not> white_space y"
  shows "trim (ws @ x # mid @ [y]) = x # mid @ [y]"
proof -
  have a: "dropWhile white_space (ws @ x # mid @ [y]) = x # mid @ [y]"
    using assms(1,2) by (rule dropWhile_white_run)
  show ?thesis using assms(3) unfolding trim_def a by simp
qed

lemma details_shape:
  "details breaking subj shorthash b =
     ''\<newline>   '' @ CHR ''*'' # ('' <details>\<newline>      <summary>'' @ breaking @ trim subj
     @ '' ('' @ shorthash @ '')</summary>\<newline>\<newline>''
     @ replaceAll (''      '' @ b) (CHR 0x0A) ''\<newline>      '' @ ''</details'') @ [CHR ''>'']"
  unfolding details_def Let_def by simp

lemma details_trimmed:
  "trim (details breaking subj shorthash b) =
     ''* <details>\<newline>      <summary>'' @ breaking @ trim subj @ '' ('' @ shorthash
     @ '')</summary>\<newline>\<newline>'' @ replaceAll (''      '' @ b) (CHR 0x0A) ''\<newline>      ''
     @ ''</details>''"
proof -
  have "trim (details breaking subj shorthash b) =
     CHR ''*'' # ('' <details>\<newline>      <summary>'' @ breaking @ trim subj
     @ '' ('' @ shorthash @ '')</summary>\<newline>\<newline>''
     @ replaceAll (''      '' @ b) (CHR 0x0A) ''\<newline>      '' @ ''</details'') @ [CHR ''>'']"
    unfolding details_shape by (rule trim_block) (simp_all add: white_space_def)
  then show ?thesis by simp
qed

lemma details_nonempty: "details breaking subj shorthash b \<noteq> []"
  unfolding details_shape by simp

lemma render_commit_None:
  "hash c = None \<or> subject c = None \<Longrightarrow> render_commit opts ty bullet c = Inl TypeError"
  by (auto simp: render_commit_def split: option.splits)

lemma render_commit_breaking:
  "hash c = Some h \<Longrightarrow> subject c = Some s \<Longrightarrow>
   render_commit opts ''breaking'' bullet c =
     Inr ((if bullet = ''*'' then '' '' else bullet @ '' \<newline>   '')
          @ ''* <details>\<newline>      <summary>'' @ breaking_prefix c
          @ trim (snd (linked opts ''breaking'' h s))
          @ '' ('' @ fst (linked opts ''breaking'' h s) @ '')</summary>\<newline>\<newline>''
          @ replaceAll (''      '' @ strip_trailers (body c)) (CHR 0x0A) ''\<newline>      ''
          @ ''</details>'')"
  by (simp add: render_commit_def Let_def case_prod_beta details_nonempty details_trimmed)
     (simp add: details_def)

lemma render_commit_plain:
  "ty \<noteq> ''breaking'' \<Longrightarrow> hash c = Some h \<Longrightarrow> subject c = Some s \<Longrightarrow>
   render_commit opts ty bullet c =
     Inr (bullet @ '' '' @ breaking_prefix c @ trim (snd (linked opts ty h s))
          @ '' ('' @ fst (linked opts ty h s) @ '')'')"
  by (simp add: render_commit_def Let_def case_prod_beta)

lemma render_commit_body:
  "ty \<noteq> ''breaking'' \<Longrightarrow>
   render_commit opts ty bullet (c\<lparr>body := b\<rparr>) = render_commit opts ty bullet c"
proof (cases "hash c")
  case None
  then show ?thesis by (simp add: render_commit_None)
next
  case h: (Some h')
  assume ty: "ty \<noteq> ''breaking''"
  show ?thesis
  proof (cases "subject c")
    case None
    then show ?thesis by (simp add: render_commit_None)
  next
    case (Some s')
    with h ty show ?thesis by (simp add: render_commit_plain breaking_prefix_def)
  qed
qed

lemma render_commit_isl:
  "isl (render_commit opts ty bullet c) \<longleftrightarrow> hash c = None \<or> subject c = None"
proof (cases "hash c")
  case None
  then show ?thesis by (simp add: render_commit_None)
next
  case h: (Some h)
  show ?thesis
  proof (cases "subject c")
    case None
    then show ?thesis by (simp add: render_commit_None)
  next
    case (Some s)
    with h show ?thesis
      by (cases "ty = ''breaking''") (simp_all add: render_commit_breaking render_commit_plain)
  qed
qed

subsection \<open>Grouping\<close>

lemma set_first_seen: "set (first_seen xs) = set xs"
  by (induction xs) auto

lemma distinct_first_seen: "distinct (first_seen xs)"
  by (induction xs) (auto simp: set_first_seen)

lemma first_seen_snoc:
  "first_seen (xs @ [x]) = (if x \<in> set xs then first_seen xs else first_seen xs @ [x])"
  by (induction xs) auto

lemma get_tabulated:
  "get (map (\<lambda>k. (k, f k)) ks) k =
     (if k \<in> set ks then Own (f k) else if own_key k then Undefined else Inherited)"
  by (simp add: get_def map_of_map_restrict restrict_map_def own_key_def)

lemma update_tabulated_new:
  "k \<notin> set ks \<Longrightarrow>
   AList.update k v (map (\<lambda>x. (x, f x)) ks) = map (\<lambda>x. (x, (f(k := v)) x)) (ks @ [k])"
  by (induction ks) auto

lemma update_tabulated_old:
  "k \<in> set ks \<Longrightarrow> distinct ks \<Longrightarrow>
   AList.update k v (map (\<lambda>x. (x, f x)) ks) = map (\<lambda>x. (x, (f(k := v)) x)) ks"
proof (induction ks)
  case Nil
  then show ?case by simp
next
  case (Cons a ks)
  show ?case
  proof (cases "a = k")
    case True
    with Cons.prems(2) have "k \<notin> set ks" by simp
    then have "map (\<lambda>x. (x, (f(k := v)) x)) ks = map (\<lambda>x. (x, f x)) ks" by auto
    with True show ?thesis by simp
  next
    case False
    with Cons show ?thesis by simp
  qed
qed

lemma update_tabulated:
  "distinct ks \<Longrightarrow>
   AList.update k v (map (\<lambda>x. (x, f x)) ks) =
     map (\<lambda>x. (x, (f(k := v)) x)) (if k \<in> set ks then ks else ks @ [k])"
  by (simp add: update_tabulated_new update_tabulated_old)


lemma bucket_snoc:
  "bucket allow (cs @ [c]) t k =
     bucket allow cs t k @ (if resolve_type allow c = t \<and> category_key c = k then [c] else [])"
  by (simp add: bucket_def)

lemma categories_of_snoc:
  "categories_of allow (cs @ [c]) t =
     (if resolve_type allow c = t \<and> category_key c \<notin> set (categories_of allow cs t)
      then categories_of allow cs t @ [category_key c] else categories_of allow cs t)"
  by (simp add: categories_of_def first_seen_snoc set_first_seen)

lemma bucket_unseen: "k \<notin> set (categories_of allow cs t) \<Longrightarrow> bucket allow cs t k = []"
  by (auto simp: categories_of_def set_first_seen bucket_def filter_empty_conv)

lemma categories_of_unseen:
  assumes "t \<notin> set (first_seen (map (resolve_type allow) cs))"
  shows "categories_of allow cs t = []"
proof -
  from assms have "filter (\<lambda>c. resolve_type allow c = t) cs = []"
    by (auto simp: set_first_seen filter_empty_conv)
  then show ?thesis by (simp add: categories_of_def)
qed

lemma group_of_snoc:
  "group_of allow (cs @ [c]) t =
     (if resolve_type allow c = t
      then AList.update (category_key c) (bucket allow cs t (category_key c) @ [c])
             (group_of allow cs t)
      else group_of allow cs t)"
proof (cases "resolve_type allow c = t")
  case False
  then show ?thesis by (simp add: group_of_def categories_of_snoc bucket_snoc)
next
  case True
  have d: "distinct (categories_of allow cs t)"
    by (simp add: categories_of_def distinct_first_seen)
  have "(\<lambda>k. bucket allow (cs @ [c]) t k)
      = (bucket allow cs t)(category_key c := bucket allow cs t (category_key c) @ [c])"
    using True by (auto simp: bucket_snoc)
  with True show ?thesis
    by (simp add: group_of_def update_tabulated [OF d] categories_of_snoc)
qed

lemma grouping_snoc:
  "grouping allow (cs @ [c]) =
     AList.update (resolve_type allow c) (group_of allow (cs @ [c]) (resolve_type allow c))
       (grouping allow cs)"
proof -
  let ?t = "resolve_type allow c"
  have d: "distinct (first_seen (map (resolve_type allow) cs))" by (rule distinct_first_seen)
  define v where "v = group_of allow (cs @ [c]) ?t"
  have "group_of allow (cs @ [c]) t = ((group_of allow cs)(?t := v)) t" for t
    by (simp add: v_def group_of_snoc)
  then have "map (\<lambda>t. (t, group_of allow (cs @ [c]) t)) ts
      = map (\<lambda>t. (t, ((group_of allow cs)(?t := v)) t)) ts" for ts
    by simp
  then show ?thesis
    unfolding v_def [symmetric]
    by (simp add: grouping_def update_tabulated [OF d] first_seen_snoc set_first_seen)
qed

lemma add_commit_grouping:
  assumes "own_key (resolve_type allow c)" "own_key (category_key c)"
  shows "add_commit allow (grouping allow cs) c = Inr (grouping allow (cs @ [c]))"
proof -
  let ?t = "resolve_type allow c" and ?k = "category_key c"
  have g: "get (grouping allow cs) ?t =
      (if ?t \<in> set (first_seen (map (resolve_type allow) cs)) then Own (group_of allow cs ?t)
       else Undefined)"
    using assms(1) by (simp add: grouping_def get_tabulated)
  have c: "get (group_of allow cs ?t) ?k =
      (if ?k \<in> set (categories_of allow cs ?t) then Own (bucket allow cs ?t ?k) else Undefined)"
    using assms(2) by (simp add: group_of_def get_tabulated)
  have e: "get [] ?k = Undefined" using assms(2) by (simp add: get_def own_key_def)
  show ?thesis
  proof (cases "?t \<in> set (first_seen (map (resolve_type allow) cs))")
    case False
    then have "group_of allow cs ?t = []" "bucket allow cs ?t ?k = []"
      by (simp_all add: group_of_def categories_of_unseen bucket_unseen)
    with False show ?thesis
      by (simp add: add_commit_def Let_def g e grouping_snoc group_of_snoc
          flip: category_key_def)
  next
    case True
    show ?thesis
    proof (cases "?k \<in> set (categories_of allow cs ?t)")
      case seen: True
      with True show ?thesis
        by (simp add: add_commit_def Let_def g c grouping_snoc group_of_snoc
            flip: category_key_def)
    next
      case False
      then have "bucket allow cs ?t ?k = []" by (rule bucket_unseen)
      with True False show ?thesis
        by (simp add: add_commit_def Let_def g c grouping_snoc group_of_snoc
            flip: category_key_def)
    qed
  qed
qed

lemma group_commits_grouping:
  assumes "\<forall>c \<in> set ys. own_key (resolve_type allow c) \<and> own_key (category_key c)"
  shows "group_commits allow (grouping allow xs) ys = Inr (grouping allow (xs @ ys))"
  using assms
proof (induction ys arbitrary: xs)
  case Nil
  show ?case by simp
next
  case (Cons y ys)
  then have "add_commit allow (grouping allow xs) y = Inr (grouping allow (xs @ [y]))"
    by (intro add_commit_grouping) simp_all
  moreover have "group_commits allow (grouping allow (xs @ [y])) ys
      = Inr (grouping allow ((xs @ [y]) @ ys))"
    using Cons.prems by (intro Cons.IH) simp
  ultimately show ?case by simp
qed

lemma grouping_Nil: "grouping allow [] = []"
  by (simp add: grouping_def)


lemma group_commits_is_grouping:
  assumes "\<forall>c \<in> set cs. own_key (resolve_type allow c) \<and> own_key (category_key c)"
  shows "group_commits allow [] cs = Inr (grouping allow cs)"
  using group_commits_grouping [OF assms, of "[]"] by (simp add: grouping_Nil)

lemma insort_key_tabulated:
  "insort_key (\<lambda>p. f (fst p)) (k, g k) (map (\<lambda>k. (k, g k)) ks)
     = map (\<lambda>k. (k, g k)) (insort_key f k ks)"
  by (induction ks) simp_all

lemma sort_key_tabulated:
  "sort_key (\<lambda>p. f (fst p)) (map (\<lambda>k. (k, g k)) ks) = map (\<lambda>k. (k, g k)) (sort_key f ks)"
  by (induction ks) (simp_all add: insort_key_tabulated)

lemma entries_tabulated:
  "entries (map (\<lambda>k. (k, g k)) ks) =
     map (\<lambda>k. (k, g k))
       (sort_key decimal (filter array_index ks) @ filter (\<lambda>k. \<not> array_index k) ks)"
  by (simp add: entries_def filter_map comp_def sort_key_tabulated)

lemma mset_entries: "mset (entries obj) = mset obj"
  by (simp add: entries_def)

lemma sort_Object_keys: "sort (Object_keys obj) = sort (map fst obj)"
proof (rule properties_for_sort)
  have "mset (map fst (entries obj)) = mset (map fst obj)"
    by (simp add: mset_entries)
  then show "mset (sort (map fst obj)) = mset (Object_keys obj)"
    by (simp add: Object_keys_def)
  show "sorted (sort (map fst obj))" by simp
qed

lemma sections_tabulated:
  "sections (map (\<lambda>k. (k, g k)) ks) = map (\<lambda>k. (k, g k)) (sort ks)"
proof -
  have "concat (map (\<lambda>t. case map_of (map (\<lambda>k. (k, g k)) ks) t of
            None \<Rightarrow> [] | Some cats \<Rightarrow> [(t, cats)]) ts) = map (\<lambda>k. (k, g k)) ts"
    if "set ts \<subseteq> set ks" for ts
    using that by (induction ts) (simp_all add: map_of_map_restrict restrict_map_def)
  then show ?thesis
    by (simp add: sections_def sort_Object_keys comp_def)
qed

lemma sections_grouping:
  "sections (grouping allow cs) =
     map (\<lambda>ty. (ty, group_of allow cs ty)) (sort (first_seen (map (resolve_type allow) cs)))"
  by (simp add: grouping_def sections_tabulated)

lemma entries_group_of:
  "entries (group_of allow cs ty) =
     map (\<lambda>cat. (cat, bucket allow cs ty cat))
       (sort_key decimal (filter array_index (categories_of allow cs ty))
        @ filter (\<lambda>k. \<not> array_index k) (categories_of allow cs ty))"
  by (simp add: group_of_def entries_tabulated)

text \<open>
  For commits whose type and category name no inherited member, the loop of lines 76 to 84
  builds exactly \<open>grouping\<close> (lemma \<open>group_commits_is_grouping\<close>): every commit sits in the
  one bucket of its resolved type and its category, and a bucket holds its commits in the
  order of the input.
\<close>

lemma mset_filter_disjoint:
  "(\<And>x. \<not> (P x \<and> Q x)) \<Longrightarrow>
   mset (filter P xs) + mset (filter Q xs) = mset (filter (\<lambda>x. P x \<or> Q x) xs)"
  by (induction xs) auto

lemma mset_concat_filters:
  "distinct ks \<Longrightarrow>
   mset (concat (map (\<lambda>k. filter (\<lambda>x. f x = k) xs) ks)) = mset (filter (\<lambda>x. f x \<in> set ks) xs)"
proof (induction ks)
  case Nil
  show ?case by simp
next
  case (Cons k ks)
  then have "mset (filter (\<lambda>x. f x = k) xs) + mset (filter (\<lambda>x. f x \<in> set ks) xs)
      = mset (filter (\<lambda>x. f x = k \<or> f x \<in> set ks) xs)"
    by (intro mset_filter_disjoint) auto
  with Cons show ?case by simp
qed

lemma mset_group_of:
  "mset (concat (map snd (group_of allow cs ty))) = mset (filter (\<lambda>c. resolve_type allow c = ty) cs)"
proof -
  let ?xs = "filter (\<lambda>c. resolve_type allow c = ty) cs"
  have "map snd (group_of allow cs ty)
      = map (\<lambda>k. filter (\<lambda>c. category_key c = k) ?xs) (categories_of allow cs ty)"
    by (simp add: group_of_def bucket_def comp_def conj_commute)
  then have "mset (concat (map snd (group_of allow cs ty)))
      = mset (filter (\<lambda>c. category_key c \<in> set (categories_of allow cs ty)) ?xs)"
    by (simp only: mset_concat_filters categories_of_def distinct_first_seen)
  also have "filter (\<lambda>c. category_key c \<in> set (categories_of allow cs ty)) ?xs = ?xs"
    by (intro filter_True) (auto simp: categories_of_def set_first_seen)
  finally show ?thesis .
qed

lemma mset_grouping:
  "mset (concat (map (\<lambda>entry. concat (map snd (snd entry))) (grouping allow cs))) = mset cs"
proof -
  let ?ts = "first_seen (map (resolve_type allow) cs)"
  have "mset (concat (map (\<lambda>entry. concat (map snd (snd entry))) (grouping allow cs)))
      = sum_list (map (\<lambda>ty. mset (concat (map snd (group_of allow cs ty)))) ?ts)"
    by (simp add: grouping_def mset_concat comp_def)
  also have "\<dots> = sum_list (map (\<lambda>ty. mset (filter (\<lambda>c. resolve_type allow c = ty) cs)) ?ts)"
    by (simp only: mset_group_of)
  also have "\<dots> = mset (concat (map (\<lambda>ty. filter (\<lambda>c. resolve_type allow c = ty) cs) ?ts))"
    by (simp add: mset_concat comp_def)
  also have "\<dots> = mset (filter (\<lambda>c. resolve_type allow c \<in> set ?ts) cs)"
    by (simp only: mset_concat_filters distinct_first_seen)
  also have "filter (\<lambda>c. resolve_type allow c \<in> set ?ts) cs = cs"
    by (intro filter_True) (auto simp: set_first_seen)
  finally show ?thesis .
qed

lemma own_keys_partition:
  assumes "\<forall>c \<in> set cs. own_key (resolve_type allow c) \<and> own_key (category_key c)"
  shows "\<exists>types. group_commits allow [] cs = Inr types
     \<and> mset (concat (map (\<lambda>entry. concat (map snd (snd entry))) types)) = mset cs
     \<and> (\<forall>ty cats cat l. map_of types ty = Some cats \<longrightarrow> map_of cats cat = Some l \<longrightarrow>
           l = filter (\<lambda>c. resolve_type allow c = ty \<and> category_key c = cat) cs)"
proof -
  have "l = filter (\<lambda>c. resolve_type allow c = ty \<and> category_key c = cat) cs"
    if "map_of (grouping allow cs) ty = Some cats" "map_of cats cat = Some l" for ty cats cat l
  proof -
    from that(1) have "cats = group_of allow cs ty"
      by (auto simp: grouping_def map_of_map_restrict restrict_map_def split: if_splits)
    with that(2) show ?thesis
      by (auto simp: group_of_def bucket_def map_of_map_restrict restrict_map_def
          split: if_splits)
  qed
  with group_commits_is_grouping [OF assms] mset_grouping [of allow cs] show ?thesis
    by blast
qed

lemma TYPES_headings: "map_of TYPES tok = Some d \<Longrightarrow> d \<noteq> []"
  by (auto simp: TYPES_def split: if_splits)

lemma TYPES_other: "TYPES_other = ''Other Changes :question:''"
  by (simp add: TYPES_other_def get_def TYPES_def)

lemma resolve_type_known:
  assumes "map_of TYPES (property_key (ctype c)) = Some d"
  shows "resolve_type allow c = property_key (ctype c)
       \<and> typeDescription allow (resolve_type allow c) = d"
  using assms TYPES_headings [OF assms]
  by (simp add: resolve_type_def typeDescription_def get_def)

lemma resolve_type_unknown:
  assumes "map_of TYPES (property_key (ctype c)) = None" "own_key (property_key (ctype c))"
  shows "resolve_type allow c = (if allow then property_key (ctype c) else ''other'')
       \<and> typeDescription allow (resolve_type allow c) =
           (if allow then ''Other Changes :question: ('' @ property_key (ctype c) @ '')''
            else ''Other Changes :question:'')"
proof (cases allow)
  case True
  with assms show ?thesis
    by (simp add: resolve_type_def typeDescription_def get_def own_key_def TYPES_other)
next
  case False
  have "typeDescription False ''other'' = ''Other Changes :question:''"
    by (simp add: typeDescription_def get_def TYPES_def)
  with False assms show ?thesis
    by (simp add: resolve_type_def get_def own_key_def DEFAULT_TYPE_def)
qed

text \<open>
  Claim C2 fails on the code for a type token that names an inherited member: with
  \<^verbatim>\<open>allowUnknown\<close> false the commit of type \<open>constructor\<close> is not filed under the key
  \<open>other\<close> but under the key \<open>constructor\<close>, because \<^verbatim>\<open>TYPES['constructor']\<close> is a
  function of the runtime; and the heading of the key \<open>constructor\<close> is not the label of
  \<open>other\<close> but the text of that function (with \<^verbatim>\<open>allowUnknown\<close> true as well, where the
  claim says the label followed by the token in parentheses). For every other token the
  lemmas \<open>resolve_type_known\<close> and \<open>resolve_type_unknown\<close> give the key and the heading
  the claim states.
\<close>

theorem inherited_type_not_other:
  "resolve_type False
     \<lparr>hash = Some ''1234567890'', ctype = Some ''constructor'', category = Some [],
      subject = Some ''add x'', body = None, flagIfBreaking = None\<rparr> = ''constructor''
   \<and> DEFAULT_TYPE = ''other''
   \<and> typeDescription False ''constructor'' = ''function Object() { [native code] }''
   \<and> typeDescription True ''constructor'' = ''function Object() { [native code] }''
   \<and> typeDescription False ''other'' = ''Other Changes :question:''"
  by code_simp

text \<open>
  Claim C4 fails on the code for a category that names an inherited member: the commit
  of category \<open>constructor\<close> is put in no bucket, the \<^verbatim>\<open>push\<close> of line 83 raises a
  TypeError and no document is rendered. For every other list of commits the lemma
  \<open>own_keys_partition\<close> gives what the claim states.
\<close>

theorem inherited_category_not_grouped:
  "group_commits False []
     [\<lparr>hash = Some ''1234567890'', ctype = Some ''fix'', category = Some ''constructor'',
       subject = Some ''handle null'', body = None, flagIfBreaking = None\<rparr>] = Inl TypeError
   \<and> markdown None ''2024-01-24''
       [\<lparr>hash = Some ''1234567890'', ctype = Some ''fix'', category = Some ''constructor'',
         subject = Some ''handle null'', body = None, flagIfBreaking = None\<rparr>]
       \<lparr>major = False, minor = False, repoUrl = None, allowUnknown = False\<rparr>
     = Inl TypeError"
  by code_simp

subsection \<open>The document\<close>

lemma for_each_all:
  "\<forall>x \<in> set xs. \<exists>y. f x = Inr y \<Longrightarrow> \<exists>ys. for_each f xs = Inr ys"
  by (induction xs) auto

lemma for_each_TypeError:
  assumes "\<forall>x \<in> set xs. (\<exists>y. f x = Inr y) \<or> f x = Inl TypeError"
    and "\<exists>x \<in> set xs. f x = Inl TypeError"
  shows "for_each f xs = Inl TypeError"
  using assms
proof (induction xs)
  case Nil
  then show ?case by simp
next
  case (Cons x xs)
  show ?case
  proof (cases "f x")
    case (Inl e)
    with Cons.prems(1) show ?thesis by auto
  next
    case (Inr y)
    with Cons.prems(2) have "\<exists>x \<in> set xs. f x = Inl TypeError" by auto
    with Cons have "for_each f xs = Inl TypeError" by simp
    with Inr show ?thesis by simp
  qed
qed

lemma render_commit_cases:
  "(hash c \<noteq> None \<and> subject c \<noteq> None \<longrightarrow> (\<exists>line. render_commit opts ty bullet c = Inr line))
   \<and> (hash c = None \<or> subject c = None \<longrightarrow> render_commit opts ty bullet c = Inl TypeError)"
proof (intro conjI impI)
  assume "hash c \<noteq> None \<and> subject c \<noteq> None"
  then have "\<not> isl (render_commit opts ty bullet c)" by (simp add: render_commit_isl)
  then show "\<exists>line. render_commit opts ty bullet c = Inr line"
    by (cases "render_commit opts ty bullet c") simp_all
next
  assume "hash c = None \<or> subject c = None"
  then show "render_commit opts ty bullet c = Inl TypeError" by (rule render_commit_None)
qed

lemma render_category_ok:
  assumes "\<forall>c \<in> set (snd entry). hash c \<noteq> None \<and> subject c \<noteq> None"
  shows "\<exists>ls. render_category opts ty entry = Inr ls"
proof -
  have "\<exists>ls. for_each (render_commit opts ty bullet) (snd entry) = Inr ls" for bullet
    using assms render_commit_cases by (intro for_each_all) blast
  then obtain ls1 ls2 where
    "for_each (render_commit opts ty ''  *'') (snd entry) = Inr ls1"
    "for_each (render_commit opts ty
        (''*'' @ (if fst entry \<noteq> [] then '' **'' @ fst entry @ '':**'' else [])))
       (snd entry) = Inr ls2"
    by blast
  then show ?thesis by (simp add: render_category_def Let_def)
qed

lemma render_category_TypeError:
  assumes "\<exists>c \<in> set (snd entry). hash c = None \<or> subject c = None"
  shows "render_category opts ty entry = Inl TypeError"
proof -
  have "for_each (render_commit opts ty bullet) (snd entry) = Inl TypeError" for bullet
  proof (rule for_each_TypeError)
    show "\<forall>c \<in> set (snd entry). (\<exists>y. render_commit opts ty bullet c = Inr y)
        \<or> render_commit opts ty bullet c = Inl TypeError"
      using render_commit_cases by blast
    show "\<exists>c \<in> set (snd entry). render_commit opts ty bullet c = Inl TypeError"
      using assms render_commit_None by blast
  qed
  then show ?thesis by (simp add: render_category_def Let_def)
qed

lemma render_category_cases:
  "(\<exists>ls. render_category opts ty entry = Inr ls) \<or> render_category opts ty entry = Inl TypeError"
proof (cases "\<forall>c \<in> set (snd entry). hash c \<noteq> None \<and> subject c \<noteq> None")
  case True
  then show ?thesis by (simp add: render_category_ok)
next
  case False
  then have "\<exists>c \<in> set (snd entry). hash c = None \<or> subject c = None" by auto
  then show ?thesis by (simp add: render_category_TypeError)
qed

lemma set_entries: "set (entries obj) = set obj"
  by (auto simp: entries_def)

lemma render_type_ok:
  assumes "\<forall>cat \<in> set (snd entry). \<forall>c \<in> set (snd cat). hash c \<noteq> None \<and> subject c \<noteq> None"
  shows "\<exists>ls. render_type opts entry = Inr ls"
proof -
  have "\<exists>ls. for_each (render_category opts (fst entry)) (entries (snd entry)) = Inr ls"
    using assms by (intro for_each_all) (simp add: set_entries render_category_ok)
  then show ?thesis by (auto simp: render_type_def Let_def)
qed

lemma render_type_TypeError:
  assumes "\<exists>cat \<in> set (snd entry). \<exists>c \<in> set (snd cat). hash c = None \<or> subject c = None"
  shows "render_type opts entry = Inl TypeError"
proof -
  have "for_each (render_category opts (fst entry)) (entries (snd entry)) = Inl TypeError"
  proof (rule for_each_TypeError)
    show "\<forall>cat \<in> set (entries (snd entry)).
        (\<exists>y. render_category opts (fst entry) cat = Inr y)
        \<or> render_category opts (fst entry) cat = Inl TypeError"
      using render_category_cases by blast
    show "\<exists>cat \<in> set (entries (snd entry)). render_category opts (fst entry) cat = Inl TypeError"
      using assms by (auto simp: set_entries intro: render_category_TypeError)
  qed
  then show ?thesis by (simp add: render_type_def Let_def)
qed


lemma render_type_cases:
  "(\<exists>ls. render_type opts entry = Inr ls) \<or> render_type opts entry = Inl TypeError"
proof (cases "\<forall>cat \<in> set (snd entry). \<forall>c \<in> set (snd cat). hash c \<noteq> None \<and> subject c \<noteq> None")
  case True
  then show ?thesis by (simp add: render_type_ok)
next
  case False
  then have "\<exists>cat \<in> set (snd entry). \<exists>c \<in> set (snd cat). hash c = None \<or> subject c = None"
    by auto
  then show ?thesis by (simp add: render_type_TypeError)
qed

lemma resolve_type_own:
  "own_key (property_key (ctype c)) \<Longrightarrow> own_key (resolve_type allow c)"
  by (simp add: resolve_type_def DEFAULT_TYPE_def own_key_def Object_prototype_def)

lemma set_group_of:
  "set (group_of allow cs ty) =
     (\<lambda>cat. (cat, bucket allow cs ty cat)) ` category_key ` {c \<in> set cs. resolve_type allow c = ty}"
  by (auto simp: group_of_def categories_of_def set_first_seen)

lemma set_sections_grouping:
  "set (sections (grouping allow cs)) =
     (\<lambda>ty. (ty, group_of allow cs ty)) ` resolve_type allow ` set cs"
  by (auto simp: sections_grouping set_first_seen)

lemma markdown_grouped:
  assumes "\<forall>c \<in> set cs. own_key (property_key (ctype c)) \<and> own_key (category_key c)"
  shows "markdown version date cs opts =
     (case for_each (render_type opts) (sections (grouping (allowUnknown opts) cs)) of
        Inl e \<Rightarrow> Inl e
      | Inr secs \<Rightarrow> Inr (join ([heading opts version date, []] @ concat secs @ [[]])))"
proof -
  have "group_commits (allowUnknown opts) [] cs = Inr (grouping (allowUnknown opts) cs)"
    using assms by (intro group_commits_is_grouping) (simp add: resolve_type_own)
  then show ?thesis by (simp add: markdown_def)
qed

lemma markdown_ok:
  assumes "\<forall>c \<in> set cs. own_key (property_key (ctype c)) \<and> own_key (category_key c)"
    and "\<forall>c \<in> set cs. hash c \<noteq> None \<and> subject c \<noteq> None"
  shows "\<exists>doc. markdown version date cs opts = Inr doc"
proof -
  let ?allow = "allowUnknown opts"
  have "\<exists>ls. render_type opts entry = Inr ls"
    if "entry \<in> set (sections (grouping ?allow cs))" for entry
  proof -
    from that obtain c0 where c0: "c0 \<in> set cs"
      and e: "entry = (resolve_type ?allow c0, group_of ?allow cs (resolve_type ?allow c0))"
      by (auto simp: set_sections_grouping)
    have "\<forall>cat \<in> set (snd entry). \<forall>c \<in> set (snd cat). hash c \<noteq> None \<and> subject c \<noteq> None"
      using assms(2) e by (auto simp: set_group_of bucket_def)
    then show ?thesis by (rule render_type_ok)
  qed
  then have "\<exists>secs. for_each (render_type opts) (sections (grouping ?allow cs)) = Inr secs"
    by (intro for_each_all) blast
  then show ?thesis by (auto simp: markdown_grouped [OF assms(1)])
qed

lemma markdown_TypeError:
  assumes "\<forall>c \<in> set cs. own_key (property_key (ctype c)) \<and> own_key (category_key c)"
    and "\<exists>c \<in> set cs. hash c = None \<or> subject c = None"
  shows "markdown version date cs opts = Inl TypeError"
proof -
  let ?allow = "allowUnknown opts"
  from assms(2) obtain c0 where c0: "c0 \<in> set cs" "hash c0 = None \<or> subject c0 = None"
    by blast
  define e0 where "e0 = (resolve_type ?allow c0, group_of ?allow cs (resolve_type ?allow c0))"
  have in_sections: "e0 \<in> set (sections (grouping ?allow cs))"
    using c0(1) by (auto simp: e0_def set_sections_grouping)
  have "(category_key c0, bucket ?allow cs (resolve_type ?allow c0) (category_key c0))
      \<in> set (snd e0)"
    using c0(1) by (auto simp: e0_def set_group_of)
  moreover have "c0 \<in> set (bucket ?allow cs (resolve_type ?allow c0) (category_key c0))"
    using c0(1) by (simp add: bucket_def)
  ultimately have "\<exists>cat \<in> set (snd e0). \<exists>c \<in> set (snd cat). hash c = None \<or> subject c = None"
    using c0(2) by force
  then have "render_type opts e0 = Inl TypeError"
    by (rule render_type_TypeError)
  with in_sections have "\<exists>entry \<in> set (sections (grouping ?allow cs)).
      render_type opts entry = Inl TypeError" by blast
  moreover have "\<forall>entry \<in> set (sections (grouping ?allow cs)).
      (\<exists>ls. render_type opts entry = Inr ls) \<or> render_type opts entry = Inl TypeError"
    using render_type_cases by blast
  ultimately have "for_each (render_type opts) (sections (grouping ?allow cs)) = Inl TypeError"
    by (intro for_each_TypeError)
  then show ?thesis by (simp add: markdown_grouped [OF assms(1)])
qed

text \<open>
  Claim C9, as amended. Rendering one commit yields a line when the commit has a hash and
  a subject, and raises a TypeError when it lacks either. For a list of commits whose
  types and categories name no inherited member, the writer returns a document when every
  commit has a hash and a subject, and is rejected with a TypeError when one commit lacks
  either.
\<close>

theorem renderer_total_on_complete_commits:
  "(hash c \<noteq> None \<and> subject c \<noteq> None \<longrightarrow> (\<exists>line. render_commit opts ty bullet c = Inr line))
   \<and> (hash c = None \<or> subject c = None \<longrightarrow> render_commit opts ty bullet c = Inl TypeError)
   \<and> ((\<forall>c \<in> set cs. own_key (property_key (ctype c)) \<and> own_key (category_key c)) \<longrightarrow>
        ((\<forall>c \<in> set cs. hash c \<noteq> None \<and> subject c \<noteq> None) \<longrightarrow>
           (\<exists>doc. markdown version date cs opts = Inr doc))
        \<and> ((\<exists>c \<in> set cs. hash c = None \<or> subject c = None) \<longrightarrow>
           markdown version date cs opts = Inl TypeError))"
  using render_commit_cases [where c = c and opts = opts and ty = ty and bullet = bullet]
    markdown_ok [where cs = cs and version = version and date = date and opts = opts]
    markdown_TypeError [where cs = cs and version = version and date = date and opts = opts]
  by blast


theorem renderer_total_on_complete_commits_witness:
  "(\<exists>doc. markdown None ''2024-01-24''
       [\<lparr>hash = Some ''1234567890'', ctype = Some ''fix'', category = Some ''core'',
         subject = Some ''handle null'', body = None, flagIfBreaking = None\<rparr>]
       \<lparr>major = False, minor = False, repoUrl = None, allowUnknown = False\<rparr> = Inr doc)
   \<and> markdown None ''2024-01-24''
       [\<lparr>hash = Some ''1234567890'', ctype = Some ''fix'', category = Some ''core'',
         subject = None, body = None, flagIfBreaking = None\<rparr>]
       \<lparr>major = False, minor = False, repoUrl = None, allowUnknown = False\<rparr> = Inl TypeError"
  using renderer_total_on_complete_commits [where version = None and date = "''2024-01-24''"
      and opts = "\<lparr>major = False, minor = False, repoUrl = None, allowUnknown = False\<rparr>"
      and cs = "[\<lparr>hash = Some ''1234567890'', ctype = Some ''fix'', category = Some ''core'',
         subject = Some ''handle null'', body = None, flagIfBreaking = None\<rparr>]"]
    renderer_total_on_complete_commits [where version = None and date = "''2024-01-24''"
      and opts = "\<lparr>major = False, minor = False, repoUrl = None, allowUnknown = False\<rparr>"
      and cs = "[\<lparr>hash = Some ''1234567890'', ctype = Some ''fix'', category = Some ''core'',
         subject = None, body = None, flagIfBreaking = None\<rparr>]"]
  by (simp add: own_key_def Object_prototype_def property_key_def category_key_def)

text \<open>
  The claim as stated fails: a commit without a hash, or without a subject, is not
  rendered with a blank in its place; the writer raises a TypeError.
\<close>

theorem renderer_total_counterexample:
  "markdown (Some ''1.0.0'') ''2024-01-24''
     [\<lparr>hash = None, ctype = Some ''fix'', category = Some ''core'',
       subject = Some ''handle null'', body = None, flagIfBreaking = None\<rparr>]
     \<lparr>major = False, minor = False, repoUrl = None, allowUnknown = False\<rparr> = Inl TypeError
   \<and> markdown (Some ''1.0.0'') ''2024-01-24''
     [\<lparr>hash = Some ''1234567890'', ctype = Some ''fix'', category = Some ''core'',
       subject = None, body = None, flagIfBreaking = None\<rparr>]
     \<lparr>major = False, minor = False, repoUrl = None, allowUnknown = False\<rparr> = Inl TypeError"
  by code_simp

subsection \<open>Bodies outside the group \<open>breaking\<close>\<close>

lemma resolve_type_redact: "resolve_type allow (redact a f c) = resolve_type allow c"
  by (simp add: redact_def resolve_type_def)

lemma category_redact: "category (redact a f c) = category c"
  by (simp add: redact_def)

lemma map_of_map_values:
  "map_of (map (\<lambda>e. (fst e, h (snd e))) obj) k = map_option h (map_of obj k)"
  by (induction obj) auto

lemma get_map_values:
  "get (map (\<lambda>e. (fst e, h (snd e))) obj) k = map_property h (get obj k)"
  by (simp add: get_def map_of_map_values split: option.splits)

lemma get_Nil: "get [] k = (if k \<in> set Object_prototype then Inherited else Undefined)"
  by (simp add: get_def)

lemma update_map_values:
  "AList.update k (h v) (map (\<lambda>e. (fst e, h (snd e))) obj)
     = map (\<lambda>e. (fst e, h (snd e))) (AList.update k v obj)"
  by (induction obj) auto

lemma add_commit_map:
  assumes "\<And>c. resolve_type allow (g c) = resolve_type allow c"
    and "\<And>c. category (g c) = category c"
  shows "add_commit allow (map (\<lambda>e. (fst e, map (\<lambda>b. (fst b, map g (snd b))) (snd e))) types) (g c)
       = map_sum id (map (\<lambda>e. (fst e, map (\<lambda>b. (fst b, map g (snd b))) (snd e))))
           (add_commit allow types c)"
proof -
  let ?h = "map (\<lambda>b. (fst b, map g (snd b)))"
  have u1: "AList.update k [(k', [g c])] (map (\<lambda>e. (fst e, ?h (snd e))) types)
      = map (\<lambda>e. (fst e, ?h (snd e))) (AList.update k [(k', [c])] types)" for k k'
    using update_map_values [of k ?h "[(k', [c])]" types] by simp
  have u2: "AList.update k (AList.update k' (map g l @ [g c]) (?h cats))
        (map (\<lambda>e. (fst e, ?h (snd e))) types)
      = map (\<lambda>e. (fst e, ?h (snd e))) (AList.update k (AList.update k' (l @ [c]) cats) types)"
    for k k' l cats
    using update_map_values [of k ?h "AList.update k' (l @ [c]) cats" types]
      update_map_values [of k' "map g" "l @ [c]" cats] by simp
  have u3: "AList.update k (AList.update k' [g c] (?h cats))
        (map (\<lambda>e. (fst e, ?h (snd e))) types)
      = map (\<lambda>e. (fst e, ?h (snd e))) (AList.update k (AList.update k' [c] cats) types)"
    for k k' cats
    using update_map_values [of k ?h "AList.update k' [c] cats" types]
      update_map_values [of k' "map g" "[c]" cats] by simp
  show ?thesis
    by (simp add: add_commit_def Let_def assms get_map_values get_Nil u1 u2 u3
        split: property.splits)
qed


lemma group_commits_map:
  assumes "\<And>c. resolve_type allow (g c) = resolve_type allow c"
    and "\<And>c. category (g c) = category c"
  shows "group_commits allow (map (\<lambda>e. (fst e, map (\<lambda>b. (fst b, map g (snd b))) (snd e))) types)
           (map g cs)
       = map_sum id (map (\<lambda>e. (fst e, map (\<lambda>b. (fst b, map g (snd b))) (snd e))))
           (group_commits allow types cs)"
proof (induction cs arbitrary: types)
  case Nil
  show ?case by simp
next
  case (Cons c cs)
  show ?case
  proof (cases "add_commit allow types c")
    case (Inl e)
    then show ?thesis by (simp add: add_commit_map [OF assms])
  next
    case (Inr types')
    then show ?thesis by (simp add: add_commit_map [OF assms] Cons.IH)
  qed
qed

text \<open>Every commit of a group has the resolved type the group is filed under.\<close>

lemma update_all:
  "\<forall>e \<in> set al. Q (fst e) (snd e) \<Longrightarrow> Q k v \<Longrightarrow>
   \<forall>e \<in> set (AList.update k v al). Q (fst e) (snd e)"
  by (induction al) auto

lemma get_Own_member: "get obj k = Own v \<Longrightarrow> (k, v) \<in> set obj"
proof -
  assume "get obj k = Own v"
  then have "map_of obj k = Some v" by (auto simp: get_def split: option.splits if_splits)
  then show ?thesis by (rule map_of_SomeD)
qed

lemma add_commit_typed:
  assumes "add_commit allow types c = Inr types'"
    and "\<forall>e \<in> set types. \<forall>b \<in> set (snd e). \<forall>x \<in> set (snd b). resolve_type allow x = fst e"
  shows "\<forall>e \<in> set types'. \<forall>b \<in> set (snd e). \<forall>x \<in> set (snd b). resolve_type allow x = fst e"
proof -
  let ?t = "resolve_type allow c" and ?k = "property_key (category c)"
  let ?Q = "\<lambda>t cats. \<forall>b \<in> set cats. \<forall>x \<in> set (snd b). resolve_type allow x = t"
  let ?R = "\<lambda>(k::string) l. \<forall>x \<in> set l. resolve_type allow x = ?t"
  have upd: "\<forall>e \<in> set (AList.update ?t cats' types). ?Q (fst e) (snd e)" if "?Q ?t cats'" for cats'
    using assms(2) that by (rule update_all [where Q = ?Q])
  have inner: "?Q ?t (AList.update ?k l cats)" if "?Q ?t cats" "?R ?k l" for cats l
    using update_all [where Q = ?R, OF that] .
  show ?thesis
  proof (cases "get types ?t")
    case Undefined
    with assms(1) have "types' = AList.update ?t [(?k, [c])] types"
      by (simp add: add_commit_def Let_def get_Nil split: if_splits)
    moreover have "?Q ?t [(?k, [c])]" by simp
    ultimately show ?thesis using upd by blast
  next
    case (Own cats)
    from get_Own_member [OF Own] assms(2) have cats: "?Q ?t cats" by fastforce
    show ?thesis
    proof (cases "get cats ?k")
      case Undefined
      with Own assms(1) have "types' = AList.update ?t (AList.update ?k [c] cats) types"
        by (simp add: add_commit_def Let_def)
      moreover have "?Q ?t (AList.update ?k [c] cats)" using cats by (rule inner) simp
      ultimately show ?thesis using upd by blast
    next
      case l: (Own l)
      from get_Own_member [OF l] cats have "?R ?k l" by fastforce
      then have "?R ?k (l @ [c])" by simp
      with cats have "?Q ?t (AList.update ?k (l @ [c]) cats)" by (rule inner)
      moreover from Own l assms(1)
      have "types' = AList.update ?t (AList.update ?k (l @ [c]) cats) types"
        by (simp add: add_commit_def Let_def)
      ultimately show ?thesis using upd by blast
    next
      case Inherited
      with Own assms(1) show ?thesis by (simp add: add_commit_def Let_def)
    qed
  next
    case Inherited
    with assms(1) show ?thesis by (simp add: add_commit_def Let_def)
  qed
qed

lemma group_commits_typed:
  assumes "group_commits allow types cs = Inr types'"
    and "\<forall>e \<in> set types. \<forall>b \<in> set (snd e). \<forall>x \<in> set (snd b). resolve_type allow x = fst e"
  shows "\<forall>e \<in> set types'. \<forall>b \<in> set (snd e). \<forall>x \<in> set (snd b). resolve_type allow x = fst e"
  using assms
proof (induction cs arbitrary: types)
  case Nil
  then show ?case by simp
next
  case (Cons c cs)
  from Cons.prems(1) obtain types1 where a: "add_commit allow types c = Inr types1"
    and g: "group_commits allow types1 cs = Inr types'"
    by (auto split: sum.splits)
  from add_commit_typed [OF a Cons.prems(2)] g show ?case by (rule Cons.IH [rotated])
qed


lemma insort_key_map_values:
  "insort_key (\<lambda>p. f (fst p)) (fst e, h (snd e)) (map (\<lambda>e. (fst e, h (snd e))) xs)
     = map (\<lambda>e. (fst e, h (snd e))) (insort_key (\<lambda>p. f (fst p)) e xs)"
  by (induction xs) simp_all

lemma sort_key_map_values:
  "sort_key (\<lambda>p. f (fst p)) (map (\<lambda>e. (fst e, h (snd e))) xs)
     = map (\<lambda>e. (fst e, h (snd e))) (sort_key (\<lambda>p. f (fst p)) xs)"
  by (induction xs) (simp_all add: insort_key_map_values)

lemma entries_map_values:
  "entries (map (\<lambda>e. (fst e, h (snd e))) obj) = map (\<lambda>e. (fst e, h (snd e))) (entries obj)"
  by (simp add: entries_def filter_map comp_def sort_key_map_values)

lemma Object_keys_map_values: "Object_keys (map (\<lambda>e. (fst e, h (snd e))) obj) = Object_keys obj"
  by (simp add: Object_keys_def entries_map_values comp_def)

lemma sections_map_values:
  "sections (map (\<lambda>e. (fst e, h (snd e))) types) = map (\<lambda>e. (fst e, h (snd e))) (sections types)"
proof -
  have "concat (map (\<lambda>ty. case map_option h (map_of types ty) of
            None \<Rightarrow> [] | Some cats \<Rightarrow> [(ty, cats)]) ks)
      = map (\<lambda>e. (fst e, h (snd e)))
          (concat (map (\<lambda>ty. case map_of types ty of None \<Rightarrow> [] | Some cats \<Rightarrow> [(ty, cats)]) ks))"
    for ks
    by (induction ks) (auto split: option.splits)
  then show ?thesis
    by (simp add: sections_def Object_keys_map_values map_of_map_values)
qed

lemma set_sections: "set (sections types) \<subseteq> set types"
proof
  fix e
  assume "e \<in> set (sections types)"
  then obtain ty cats where "map_of types ty = Some cats" "e = (ty, cats)"
    by (auto simp: sections_def split: option.splits)
  then show "e \<in> set types" by (simp add: map_of_SomeD)
qed

lemma for_each_map:
  "\<forall>x \<in> set xs. f (g x) = f' x \<Longrightarrow> for_each f (map g xs) = for_each f' xs"
  by (induction xs) (auto split: sum.splits)

lemma render_commit_redact:
  "resolve_type allow c = ty \<Longrightarrow>
   render_commit opts ty bullet (redact allow f c) = render_commit opts ty bullet c"
  by (cases "ty = ''breaking''") (auto simp: redact_def render_commit_body)

lemma render_category_redact:
  assumes "\<forall>c \<in> set (snd b). resolve_type allow c = ty"
  shows "render_category opts ty (fst b, map (redact allow f) (snd b)) = render_category opts ty b"
proof -
  have "for_each (render_commit opts ty bullet) (map (redact allow f) (snd b))
      = for_each (render_commit opts ty bullet) (snd b)" for bullet
    using assms by (intro for_each_map) (simp add: render_commit_redact)
  then show ?thesis by (simp add: render_category_def Let_def)
qed

lemma render_type_redact:
  assumes "\<forall>b \<in> set (snd e). \<forall>c \<in> set (snd b). resolve_type allow c = fst e"
  shows "render_type opts (fst e, map (\<lambda>b. (fst b, map (redact allow f) (snd b))) (snd e))
       = render_type opts e"
proof -
  have "for_each (render_category opts (fst e))
          (map (\<lambda>b. (fst b, map (redact allow f) (snd b))) (entries (snd e)))
      = for_each (render_category opts (fst e)) (entries (snd e))"
    using assms by (intro for_each_map) (simp add: render_category_redact set_entries)
  then show ?thesis
    unfolding render_type_def Let_def fst_conv snd_conv
      entries_map_values [where h = "map (redact allow f)"]
    by (simp only:)
qed

lemma markdown_redact:
  assumes "\<forall>c \<in> set cs. own_key (property_key (ctype c))"
  shows "markdown version date (map (redact (allowUnknown opts) f) cs) opts
     = markdown version date cs opts"
proof -
  let ?allow = "allowUnknown opts"
  let ?G = "map (\<lambda>e. (fst e, map (\<lambda>b. (fst b, map (redact ?allow f) (snd b))) (snd e)))"
  have g: "group_commits ?allow [] (map (redact ?allow f) cs)
      = map_sum id ?G (group_commits ?allow [] cs)"
    using group_commits_map [where g = "redact ?allow f" and allow = ?allow and types = "[]"
        and cs = cs]
    by (simp add: resolve_type_redact category_redact)
  show ?thesis
  proof (cases "group_commits ?allow [] cs")
    case (Inl e)
    with g show ?thesis by (simp add: markdown_def)
  next
    case (Inr types)
    then have typed: "\<forall>e \<in> set types. \<forall>b \<in> set (snd e). \<forall>c \<in> set (snd b).
        resolve_type ?allow c = fst e"
      by (rule group_commits_typed) simp
    have "render_type opts (fst e, map (\<lambda>b. (fst b, map (redact ?allow f) (snd b))) (snd e))
        = render_type opts e" if "e \<in> set (sections types)" for e
    proof (rule render_type_redact)
      from that set_sections [of types] have "e \<in> set types" by blast
      with typed show "\<forall>b \<in> set (snd e). \<forall>c \<in> set (snd b). resolve_type ?allow c = fst e"
        by blast
    qed
    then have "for_each (render_type opts) (sections (?G types))
        = for_each (render_type opts) (sections types)"
      unfolding sections_map_values
        [where h = "map (\<lambda>b. (fst b, map (redact ?allow f) (snd b)))"]
      by (intro for_each_map) blast
    with g Inr show ?thesis by (simp add: markdown_def)
  qed
qed


subsection \<open>The repository URL\<close>

lemma for_each_isl: "isl (for_each f xs) \<longleftrightarrow> (\<exists>x \<in> set xs. isl (f x))"
  by (induction xs) (auto split: sum.splits)

lemma isl_case_Inr: "isl (case x of Inl e \<Rightarrow> Inl e | Inr y \<Rightarrow> Inr (g y)) = isl x"
  by (cases x) simp_all

lemma render_category_isl:
  "isl (render_category opts ty b) \<longleftrightarrow> (\<exists>c \<in> set (snd b). hash c = None \<or> subject c = None)"
proof -
  have "isl (for_each (render_commit opts ty bullet) (snd b))
      \<longleftrightarrow> (\<exists>c \<in> set (snd b). hash c = None \<or> subject c = None)" for bullet
    by (simp add: for_each_isl render_commit_isl)
  then show ?thesis by (simp add: render_category_def Let_def isl_case_Inr)
qed

lemma render_type_isl:
  "isl (render_type opts e) \<longleftrightarrow>
     (\<exists>b \<in> set (snd e). \<exists>c \<in> set (snd b). hash c = None \<or> subject c = None)"
proof -
  have "isl (for_each (render_category opts (fst e)) (entries (snd e)))
      \<longleftrightarrow> (\<exists>b \<in> set (snd e). \<exists>c \<in> set (snd b). hash c = None \<or> subject c = None)"
    by (simp add: for_each_isl render_category_isl set_entries)
  then show ?thesis by (simp add: render_type_def Let_def isl_case_Inr)
qed

lemma markdown_isl:
  "isl (markdown version date cs opts) \<longleftrightarrow>
     (case group_commits (allowUnknown opts) [] cs of
        Inl e \<Rightarrow> True
      | Inr types \<Rightarrow> \<exists>e \<in> set (sections types).
          \<exists>b \<in> set (snd e). \<exists>c \<in> set (snd b). hash c = None \<or> subject c = None)"
proof (cases "group_commits (allowUnknown opts) [] cs")
  case (Inl x)
  then show ?thesis by (simp add: markdown_def)
next
  case (Inr types)
  have "isl (for_each (render_type opts) (sections types))
      \<longleftrightarrow> (\<exists>e \<in> set (sections types).
          \<exists>b \<in> set (snd e). \<exists>c \<in> set (snd b). hash c = None \<or> subject c = None)"
    by (simp add: for_each_isl render_type_isl)
  with Inr show ?thesis by (simp add: markdown_def isl_case_Inr)
qed

lemma markdown_isl_repoUrl:
  assumes "\<forall>c \<in> set cs. own_key (property_key (ctype c))"
  shows "isl (markdown version date cs (opts\<lparr>repoUrl := r\<rparr>))
       = isl (markdown version date cs opts)"
  unfolding markdown_isl by (simp cong: sum.case_cong)

subsection \<open>The lines of the document\<close>

lemma for_each_member:
  "for_each f xs = Inr ys \<Longrightarrow> x \<in> set xs \<Longrightarrow> \<exists>y. f x = Inr y \<and> y \<in> set ys"
proof (induction xs arbitrary: ys)
  case Nil
  then show ?case by simp
next
  case (Cons a xs)
  from Cons.prems(1) obtain y ys' where a: "f a = Inr y" and r: "for_each f xs = Inr ys'"
    and ys: "ys = y # ys'"
    by (auto split: sum.splits)
  show ?case
  proof (cases "x = a")
    case True
    with a ys show ?thesis by simp
  next
    case False
    with Cons.prems(2) have "x \<in> set xs" by simp
    from Cons.IH [OF r this] ys show ?thesis by auto
  qed
qed

lemma join_contains: "l \<in> set ls \<Longrightarrow> \<exists>pre post. join ls = pre @ l @ post"
proof (induction ls rule: join.induct)
  case 1
  then show ?case by simp
next
  case (2 x)
  then have "join [x] = [] @ l @ []" by simp
  then show ?case by blast
next
  case (3 x m ls)
  show ?case
  proof (cases "l = x")
    case True
    then have "join (x # m # ls) = [] @ l @ (CHR 0x0A # join (m # ls))" by simp
    then show ?thesis by blast
  next
    case False
    with 3 obtain pre post where "join (m # ls) = pre @ l @ post" by auto
    then have "join (x # m # ls) = (x @ CHR 0x0A # pre) @ l @ post" by simp
    then show ?thesis by blast
  qed
qed

lemma render_category_member:
  assumes "render_category opts ty b = Inr ls" "c \<in> set (snd b)"
  shows "\<exists>bullet line. render_commit opts ty bullet c = Inr line \<and> line \<in> set ls"
proof (cases "length (snd b) > 1 \<and> fst b \<noteq> []")
  case True
  with assms(1) obtain ls' where f: "for_each (render_commit opts ty ''  *'') (snd b) = Inr ls'"
    and ls: "ls = (''*'' @ '' **'' @ fst b @ '':**'') # ls'"
    by (auto simp: render_category_def Let_def split: sum.splits)
  from for_each_member [OF f assms(2)] ls show ?thesis by auto
next
  case False
  with assms(1) have "for_each (render_commit opts ty
      (''*'' @ (if fst b \<noteq> [] then '' **'' @ fst b @ '':**'' else []))) (snd b) = Inr ls"
    by (auto simp: render_category_def Let_def)
  from for_each_member [OF this assms(2)] show ?thesis by blast
qed

lemma render_type_member:
  assumes "render_type opts e = Inr ls" "b \<in> set (snd e)" "c \<in> set (snd b)"
  shows "\<exists>bullet line. render_commit opts (fst e) bullet c = Inr line \<and> line \<in> set ls"
proof -
  from assms(1) obtain lss where
    f: "for_each (render_category opts (fst e)) (entries (snd e)) = Inr lss"
    and ls: "ls = [''##### '' @ typeDescription (allowUnknown opts) (fst e), []]
      @ concat lss @ [[]]"
    by (auto simp: render_type_def Let_def split: sum.splits)
  from assms(2) have "b \<in> set (entries (snd e))" by (simp add: set_entries)
  from for_each_member [OF f this] obtain cl
    where cl: "render_category opts (fst e) b = Inr cl" "cl \<in> set lss" by blast
  from render_category_member [OF cl(1) assms(3)] obtain bullet line
    where "render_commit opts (fst e) bullet c = Inr line" "line \<in> set cl" by blast
  with cl(2) ls show ?thesis by auto
qed

lemma markdown_member:
  assumes "\<forall>c \<in> set cs. own_key (property_key (ctype c)) \<and> own_key (category_key c)"
    and "markdown version date cs opts = Inr doc" "c \<in> set cs"
  shows "\<exists>bullet line pre post.
     render_commit opts (resolve_type (allowUnknown opts) c) bullet c = Inr line
     \<and> doc = pre @ line @ post"
proof -
  let ?allow = "allowUnknown opts"
  let ?t = "resolve_type ?allow c"
  from assms(2) obtain secs where
    f: "for_each (render_type opts) (sections (grouping ?allow cs)) = Inr secs"
    and doc: "doc = join ([heading opts version date, []] @ concat secs @ [[]])"
    by (auto simp: markdown_grouped [OF assms(1)] split: sum.splits)
  have "(?t, group_of ?allow cs ?t) \<in> set (sections (grouping ?allow cs))"
    using assms(3) by (auto simp: set_sections_grouping)
  from for_each_member [OF f this] obtain sec
    where sec: "render_type opts (?t, group_of ?allow cs ?t) = Inr sec" "sec \<in> set secs"
    by blast
  have b: "(category_key c, bucket ?allow cs ?t (category_key c)) \<in> set (group_of ?allow cs ?t)"
    using assms(3) by (auto simp: set_group_of)
  have "c \<in> set (bucket ?allow cs ?t (category_key c))"
    using assms(3) by (simp add: bucket_def)
  with render_type_member [OF sec(1), of "(category_key c, bucket ?allow cs ?t (category_key c))" c] b
  obtain bullet line where line: "render_commit opts ?t bullet c = Inr line" "line \<in> set sec"
    by auto
  from line(2) sec(2) have "line \<in> set ([heading opts version date, []] @ concat secs @ [[]])"
    by auto
  from join_contains [OF this] doc line(1) show ?thesis by blast
qed

lemma render_commit_line:
  assumes "hash c \<noteq> None" "subject c \<noteq> None"
  shows "render_commit opts ty bullet c = Inr (commit_line opts ty bullet c)"
proof -
  from assms obtain h s where hs: "hash c = Some h" "subject c = Some s" by auto
  show ?thesis
  proof (cases "ty = ''breaking''")
    case True
    with hs show ?thesis
      by (simp add: render_commit_breaking commit_line_def summary_def)
  next
    case False
    with hs show ?thesis
      by (simp add: render_commit_plain commit_line_def summary_def)
  qed
qed

lemma for_each_Inr_map: "\<forall>x \<in> set xs. f x = Inr (g x) \<Longrightarrow> for_each f xs = Inr (map g xs)"
  by (induction xs) simp_all

lemma render_category_lines:
  assumes "\<forall>c \<in> set commits. hash c \<noteq> None \<and> subject c \<noteq> None"
  shows "render_category opts ty (cat, commits) = Inr (category_lines opts ty cat commits)"
proof -
  have f: "for_each (render_commit opts ty bullet) commits
      = Inr (map (commit_line opts ty bullet) commits)" for bullet
    using assms by (intro for_each_Inr_map) (simp add: render_commit_line)
  show ?thesis
    by (simp add: render_category_def Let_def f category_lines_def)
qed

lemma render_type_lines:
  assumes "\<forall>c \<in> set cs. hash c \<noteq> None \<and> subject c \<noteq> None"
  shows "render_type opts (ty, group_of (allowUnknown opts) cs ty) = Inr (section_lines opts cs ty)"
proof -
  let ?allow = "allowUnknown opts"
  have "for_each (render_category opts ty)
          (map (\<lambda>cat. (cat, bucket ?allow cs ty cat)) (category_keys ?allow cs ty))
      = for_each (\<lambda>cat. render_category opts ty (cat, bucket ?allow cs ty cat))
          (category_keys ?allow cs ty)"
    by (intro for_each_map) simp
  also have "\<dots> = Inr (map (\<lambda>cat. category_lines opts ty cat (bucket ?allow cs ty cat))
          (category_keys ?allow cs ty))"
    using assms by (intro for_each_Inr_map ballI render_category_lines) (simp add: bucket_def)
  finally show ?thesis
    by (simp add: render_type_def Let_def entries_group_of section_lines_def
        flip: category_keys_def)
qed

lemma markdown_document:
  assumes "\<forall>c \<in> set cs. own_key (property_key (ctype c)) \<and> own_key (category_key c)"
    and "\<forall>c \<in> set cs. hash c \<noteq> None \<and> subject c \<noteq> None"
  shows "markdown version date cs opts = Inr (document opts version date cs)"
proof -
  let ?allow = "allowUnknown opts"
  have "for_each (render_type opts)
          (map (\<lambda>ty. (ty, group_of ?allow cs ty)) (type_keys ?allow cs))
      = for_each (\<lambda>ty. render_type opts (ty, group_of ?allow cs ty)) (type_keys ?allow cs)"
    by (intro for_each_map) simp
  also have "\<dots> = Inr (map (section_lines opts cs) (type_keys ?allow cs))"
    using assms(2) by (intro for_each_Inr_map ballI render_type_lines) blast
  finally show ?thesis
    by (simp add: markdown_grouped [OF assms(1)] sections_grouping document_def
        flip: type_keys_def)
qed

lemma markdown_entry:
  assumes "\<forall>x \<in> set cs. own_key (property_key (ctype x)) \<and> own_key (category_key x)"
    and "\<forall>x \<in> set cs. hash x \<noteq> None \<and> subject x \<noteq> None"
    and "c \<in> set cs"
  shows "\<exists>doc pre post. markdown version date cs opts = Inr doc
     \<and> doc = pre @ summary opts (resolve_type (allowUnknown opts) c) c @ post"
proof -
  let ?t = "resolve_type (allowUnknown opts) c"
  from markdown_ok [OF assms(1,2)] obtain doc
    where doc: "markdown version date cs opts = Inr doc" by blast
  from markdown_member [OF assms(1) doc assms(3)] obtain b line pre post
    where line: "render_commit opts ?t b c = Inr line" and d: "doc = pre @ line @ post"
    by auto
  from assms(2,3) have "render_commit opts ?t b c = Inr (commit_line opts ?t b c)"
    by (intro render_commit_line) simp_all
  with line have l: "line = commit_line opts ?t b c" by simp
  have "\<exists>x y. commit_line opts ?t b c = x @ summary opts ?t c @ y"
  proof (cases "?t = ''breaking''")
    case True
    have "commit_line opts ''breaking'' b c
        = ((if b = ''*'' then '' '' else b @ '' \<newline>   '') @ ''* <details>\<newline>      <summary>'')
          @ summary opts ''breaking'' c
          @ (''</summary>\<newline>\<newline>''
             @ replaceAll (''      '' @ strip_trailers (body c)) (CHR 0x0A) ''\<newline>      ''
             @ ''</details>'')"
      by (simp add: commit_line_def)
    with True show ?thesis by metis
  next
    case False
    then have "commit_line opts ?t b c = (b @ '' '') @ summary opts ?t c @ []"
      by (simp add: commit_line_def)
    then show ?thesis by blast
  qed
  then obtain x y where "commit_line opts ?t b c = x @ summary opts ?t c @ y" by blast
  with d l have "doc = (pre @ x) @ summary opts ?t c @ (y @ post)" by simp
  with doc show ?thesis by blast
qed

lemma summary_eq:
  "hash c = Some h \<Longrightarrow> subject c = Some s \<Longrightarrow>
   summary opts ty c =
     breaking_prefix c @ trim (snd (linked opts ty h s)) @ '' ('' @ fst (linked opts ty h s) @ '')''"
  by (simp add: summary_def)

lemma sorted_type_keys:
  "sorted (type_keys allow cs) \<and> distinct (type_keys allow cs)
   \<and> set (type_keys allow cs) = resolve_type allow ` set cs"
  by (simp add: type_keys_def distinct_first_seen set_first_seen)

text \<open>
  Claim C1, as amended. A commit of the group \<open>breaking\<close> is rendered as the collapsible
  block: \<open>* <details>\<close>, the summary line with the flag prefix, the trimmed subject and the
  short hash or its link, an empty line, the body indented by six spaces, and
  \<open></details>\<close>. Under the flat bullet \<open>*\<close> a space precedes the block; under any other
  bullet the bullet, a space and a line break do. A commit of any other group is rendered
  as one plain line without the block. The document of a list of commits (all with hash
  and subject, none with an inherited name for type or category) contains the block of
  each of its commits whose resolved type is \<open>breaking\<close>.
\<close>

theorem details_block_for_breaking:
  "(hash c = Some h \<and> subject c = Some s \<longrightarrow>
     render_commit opts ''breaking'' bullet c =
       Inr ((if bullet = ''*'' then '' '' else bullet @ '' \<newline>   '')
            @ ''* <details>\<newline>      <summary>'' @ breaking_prefix c
            @ trim (snd (linked opts ''breaking'' h s))
            @ '' ('' @ fst (linked opts ''breaking'' h s) @ '')</summary>\<newline>\<newline>''
            @ replaceAll (''      '' @ strip_trailers (body c)) (CHR 0x0A) ''\<newline>      ''
            @ ''</details>'')
     \<and> (ty \<noteq> ''breaking'' \<longrightarrow>
          render_commit opts ty bullet c =
            Inr (bullet @ '' '' @ breaking_prefix c @ trim (snd (linked opts ty h s))
                 @ '' ('' @ fst (linked opts ty h s) @ '')'')))
   \<and> ((\<forall>x \<in> set cs. own_key (property_key (ctype x)) \<and> own_key (category_key x)) \<and>
       (\<forall>x \<in> set cs. hash x \<noteq> None \<and> subject x \<noteq> None) \<and>
       c \<in> set cs \<and> resolve_type (allowUnknown opts) c = ''breaking'' \<and>
       hash c = Some h \<and> subject c = Some s \<longrightarrow>
       (\<exists>doc pre post. markdown version date cs opts = Inr doc \<and>
          doc = pre @ (''* <details>\<newline>      <summary>'' @ breaking_prefix c
            @ trim (snd (linked opts ''breaking'' h s))
            @ '' ('' @ fst (linked opts ''breaking'' h s) @ '')</summary>\<newline>\<newline>''
            @ replaceAll (''      '' @ strip_trailers (body c)) (CHR 0x0A) ''\<newline>      ''
            @ ''</details>'') @ post))"
proof (intro conjI impI)
  assume a: "hash c = Some h \<and> subject c = Some s"
  then show "render_commit opts ''breaking'' bullet c =
       Inr ((if bullet = ''*'' then '' '' else bullet @ '' \<newline>   '')
            @ ''* <details>\<newline>      <summary>'' @ breaking_prefix c
            @ trim (snd (linked opts ''breaking'' h s))
            @ '' ('' @ fst (linked opts ''breaking'' h s) @ '')</summary>\<newline>\<newline>''
            @ replaceAll (''      '' @ strip_trailers (body c)) (CHR 0x0A) ''\<newline>      ''
            @ ''</details>'')"
    by (simp add: render_commit_breaking)
  assume "ty \<noteq> ''breaking''"
  with a show "render_commit opts ty bullet c =
            Inr (bullet @ '' '' @ breaking_prefix c @ trim (snd (linked opts ty h s))
                 @ '' ('' @ fst (linked opts ty h s) @ '')'')"
    by (simp add: render_commit_plain)
next
  let ?block = "''* <details>\<newline>      <summary>'' @ breaking_prefix c
            @ trim (snd (linked opts ''breaking'' h s))
            @ '' ('' @ fst (linked opts ''breaking'' h s) @ '')</summary>\<newline>\<newline>''
            @ replaceAll (''      '' @ strip_trailers (body c)) (CHR 0x0A) ''\<newline>      ''
            @ ''</details>''"
  assume a: "(\<forall>x \<in> set cs. own_key (property_key (ctype x)) \<and> own_key (category_key x)) \<and>
       (\<forall>x \<in> set cs. hash x \<noteq> None \<and> subject x \<noteq> None) \<and>
       c \<in> set cs \<and> resolve_type (allowUnknown opts) c = ''breaking'' \<and>
       hash c = Some h \<and> subject c = Some s"
  then have own: "\<forall>x \<in> set cs. own_key (property_key (ctype x)) \<and> own_key (category_key x)"
    and complete: "\<forall>x \<in> set cs. hash x \<noteq> None \<and> subject x \<noteq> None"
    and c: "c \<in> set cs" "resolve_type (allowUnknown opts) c = ''breaking''"
    and hs: "hash c = Some h" "subject c = Some s"
    by simp_all
  from markdown_ok [OF own complete] obtain doc
    where doc: "markdown version date cs opts = Inr doc" by blast
  from markdown_member [OF own doc c(1)] c(2) obtain b line pre post
    where line: "render_commit opts ''breaking'' b c = Inr line" and d: "doc = pre @ line @ post"
    by auto
  from line have "line = (if b = ''*'' then '' '' else b @ '' \<newline>   '') @ ?block"
    by (simp add: render_commit_breaking [OF hs])
  with d have "doc = (pre @ (if b = ''*'' then '' '' else b @ '' \<newline>   '')) @ ?block @ post"
    by simp
  with doc show "\<exists>doc pre post. markdown version date cs opts = Inr doc \<and>
      doc = pre @ ?block @ post"
    by blast
qed

theorem details_block_for_breaking_witness:
  "render_commit \<lparr>major = False, minor = False, repoUrl = None, allowUnknown = False\<rparr>
     ''breaking'' ''*''
     \<lparr>hash = Some ''0123456789ab'', ctype = Some ''breaking'', category = Some [],
      subject = Some ''drop the old api'', body = Some ''line1\<newline>line2'',
      flagIfBreaking = Some ''major''\<rparr>
   = Inr '' * <details>\<newline>      <summary>(major): drop the old api (01234567)</summary>\<newline>\<newline>      line1\<newline>      line2</details>''
   \<and> render_commit \<lparr>major = False, minor = False, repoUrl = None, allowUnknown = False\<rparr>
     ''feat'' ''*''
     \<lparr>hash = Some ''0123456789ab'', ctype = Some ''breaking'', category = Some [],
      subject = Some ''drop the old api'', body = Some ''line1\<newline>line2'',
      flagIfBreaking = Some ''major''\<rparr>
   = Inr ''* (major): drop the old api (01234567)''
   \<and> (\<exists>doc pre post.
        markdown None ''2024-01-24''
          [\<lparr>hash = Some ''0123456789ab'', ctype = Some ''breaking'', category = Some [],
            subject = Some ''drop the old api'', body = Some ''line1\<newline>line2'',
            flagIfBreaking = Some ''major''\<rparr>]
          \<lparr>major = False, minor = False, repoUrl = None, allowUnknown = False\<rparr> = Inr doc
        \<and> doc = pre @ ''* <details>\<newline>      <summary>(major): drop the old api (01234567)</summary>\<newline>\<newline>      line1\<newline>      line2</details>'' @ post)"
  using details_block_for_breaking [where bullet = "''*''" and ty = "''feat''"
      and opts = "\<lparr>major = False, minor = False, repoUrl = None, allowUnknown = False\<rparr>"
      and c = "\<lparr>hash = Some ''0123456789ab'', ctype = Some ''breaking'', category = Some [],
        subject = Some ''drop the old api'', body = Some ''line1\<newline>line2'',
        flagIfBreaking = Some ''major''\<rparr>"
      and h = "''0123456789ab''" and s = "''drop the old api''"
      and version = None and date = "''2024-01-24''"
      and cs = "[\<lparr>hash = Some ''0123456789ab'', ctype = Some ''breaking'', category = Some [],
        subject = Some ''drop the old api'', body = Some ''line1\<newline>line2'',
        flagIfBreaking = Some ''major''\<rparr>]"]
  by (simp add: linked_def substring_def trim_def white_space_def breaking_prefix_def truthy_def
      property_key_def strip_trailers_def replaceAll_def replace_trailer.simps newline_def
      own_key_def Object_prototype_def category_key_def resolve_type_def get_def TYPES_def)

text \<open>
  The claim as stated fails: a commit of type \<open>feat\<close> with a body is rendered without any
  \<open><details>\<close> block.
\<close>

theorem details_block_counterexample:
  "markdown (Some ''1.0.0'') ''2024-01-24''
     [\<lparr>hash = Some ''1234567890'', ctype = Some ''feat'', category = Some [],
       subject = Some ''add x'', body = Some ''the body'', flagIfBreaking = None\<rparr>]
     \<lparr>major = False, minor = False, repoUrl = None, allowUnknown = False\<rparr>
   = Inr ''#### 1.0.0 (2024-01-24)\<newline>\<newline>##### New Features :sparkles:\<newline>\<newline>* add x (12345678)\<newline>\<newline>''
   \<and> indexOf ''#### 1.0.0 (2024-01-24)\<newline>\<newline>##### New Features :sparkles:\<newline>\<newline>* add x (12345678)\<newline>\<newline>''
       ''<details>'' = - 1"
  by code_simp

subsection \<open>The order of the sections and of the categories\<close>

text \<open>
  Claim C5, as amended. For a list of commits that all have a hash and a subject and whose
  types and categories name no inherited member, the document is the heading, an empty
  line, and the sections of the resolved type keys in strictly ascending order (code unit
  by code unit), one section for each resolved type: the line \<open>##### \<close> with the heading
  of the type, an empty line, the lines of its categories and an empty line. Within a
  section the categories whose keys are array indices come first, in ascending numeric
  order; the other categories follow in the order in which they were first seen.
\<close>

theorem sections_sorted_categories_by_key:
  "(\<forall>c \<in> set cs. own_key (property_key (ctype c)) \<and> own_key (category_key c)) \<and>
   (\<forall>c \<in> set cs. hash c \<noteq> None \<and> subject c \<noteq> None) \<longrightarrow>
     markdown version date cs opts =
       Inr (join ([heading opts version date, []]
         @ concat (map (section_lines opts cs) (type_keys (allowUnknown opts) cs)) @ [[]]))
     \<and> (\<forall>ty. section_lines opts cs ty =
           (''##### '' @ typeDescription (allowUnknown opts) ty) # [] #
           concat (map (\<lambda>cat. category_lines opts ty cat (bucket (allowUnknown opts) cs ty cat))
             (category_keys (allowUnknown opts) cs ty)) @ [[]])
     \<and> sorted (type_keys (allowUnknown opts) cs) \<and> distinct (type_keys (allowUnknown opts) cs)
     \<and> set (type_keys (allowUnknown opts) cs) = resolve_type (allowUnknown opts) ` set cs
     \<and> (\<forall>ty. category_keys (allowUnknown opts) cs ty =
           sort_key decimal (filter array_index
             (first_seen (map category_key
               (filter (\<lambda>c. resolve_type (allowUnknown opts) c = ty) cs))))
           @ filter (\<lambda>k. \<not> array_index k)
             (first_seen (map category_key
               (filter (\<lambda>c. resolve_type (allowUnknown opts) c = ty) cs))))"
proof
  assume a: "(\<forall>c \<in> set cs. own_key (property_key (ctype c)) \<and> own_key (category_key c)) \<and>
   (\<forall>c \<in> set cs. hash c \<noteq> None \<and> subject c \<noteq> None)"
  then have own: "\<forall>c \<in> set cs. own_key (property_key (ctype c)) \<and> own_key (category_key c)"
    and complete: "\<forall>c \<in> set cs. hash c \<noteq> None \<and> subject c \<noteq> None"
    by simp_all
  have "markdown version date cs opts =
       Inr (join ([heading opts version date, []]
         @ concat (map (section_lines opts cs) (type_keys (allowUnknown opts) cs)) @ [[]]))"
    using markdown_document [OF own complete] by (simp add: document_def)
  moreover have "\<forall>ty. section_lines opts cs ty =
           (''##### '' @ typeDescription (allowUnknown opts) ty) # [] #
           concat (map (\<lambda>cat. category_lines opts ty cat (bucket (allowUnknown opts) cs ty cat))
             (category_keys (allowUnknown opts) cs ty)) @ [[]]"
    by (simp add: section_lines_def)
  moreover have "\<forall>ty. category_keys (allowUnknown opts) cs ty =
           sort_key decimal (filter array_index
             (first_seen (map category_key
               (filter (\<lambda>c. resolve_type (allowUnknown opts) c = ty) cs))))
           @ filter (\<lambda>k. \<not> array_index k)
             (first_seen (map category_key
               (filter (\<lambda>c. resolve_type (allowUnknown opts) c = ty) cs)))"
    by (simp add: category_keys_def categories_of_def)
  ultimately show "markdown version date cs opts =
       Inr (join ([heading opts version date, []]
         @ concat (map (section_lines opts cs) (type_keys (allowUnknown opts) cs)) @ [[]]))
     \<and> (\<forall>ty. section_lines opts cs ty =
           (''##### '' @ typeDescription (allowUnknown opts) ty) # [] #
           concat (map (\<lambda>cat. category_lines opts ty cat (bucket (allowUnknown opts) cs ty cat))
             (category_keys (allowUnknown opts) cs ty)) @ [[]])
     \<and> sorted (type_keys (allowUnknown opts) cs) \<and> distinct (type_keys (allowUnknown opts) cs)
     \<and> set (type_keys (allowUnknown opts) cs) = resolve_type (allowUnknown opts) ` set cs
     \<and> (\<forall>ty. category_keys (allowUnknown opts) cs ty =
           sort_key decimal (filter array_index
             (first_seen (map category_key
               (filter (\<lambda>c. resolve_type (allowUnknown opts) c = ty) cs))))
           @ filter (\<lambda>k. \<not> array_index k)
             (first_seen (map category_key
               (filter (\<lambda>c. resolve_type (allowUnknown opts) c = ty) cs))))"
    using sorted_type_keys [of "allowUnknown opts" cs] by blast
qed

theorem sections_sorted_categories_by_key_witness:
  "markdown None ''2024-01-24''
     [\<lparr>hash = Some ''aaaaaaaa11'', ctype = Some ''zzz'', category = Some ''b'',
       subject = Some ''first'', body = None, flagIfBreaking = None\<rparr>,
      \<lparr>hash = Some ''bbbbbbbb22'', ctype = Some ''feat'', category = Some ''b'',
       subject = Some ''second'', body = None, flagIfBreaking = None\<rparr>,
      \<lparr>hash = Some ''cccccccc33'', ctype = Some ''feat'', category = Some ''10'',
       subject = Some ''third'', body = None, flagIfBreaking = None\<rparr>,
      \<lparr>hash = Some ''dddddddd44'', ctype = Some ''Fix'', category = Some ''a'',
       subject = Some ''fourth'', body = None, flagIfBreaking = None\<rparr>,
      \<lparr>hash = Some ''eeeeeeee55'', ctype = Some ''feat'', category = Some ''9'',
       subject = Some ''fifth'', body = None, flagIfBreaking = None\<rparr>,
      \<lparr>hash = Some ''ffffffff66'', ctype = Some ''feat'', category = Some ''a'',
       subject = Some ''sixth'', body = None, flagIfBreaking = None\<rparr>]
     \<lparr>major = False, minor = False, repoUrl = None, allowUnknown = True\<rparr>
   = Inr ''#### 2024-01-24\<newline>\<newline>##### Other Changes :question: (Fix)\<newline>\<newline>* **a:** fourth (dddddddd)\<newline>\<newline>##### New Features :sparkles:\<newline>\<newline>* **9:** fifth (eeeeeeee)\<newline>* **10:** third (cccccccc)\<newline>* **b:** second (bbbbbbbb)\<newline>* **a:** sixth (ffffffff)\<newline>\<newline>##### Other Changes :question: (zzz)\<newline>\<newline>* **b:** first (aaaaaaaa)\<newline>\<newline>''"
proof -
  have h: "(\<forall>c \<in> set
     [\<lparr>hash = Some ''aaaaaaaa11'', ctype = Some ''zzz'', category = Some ''b'',
       subject = Some ''first'', body = None, flagIfBreaking = None\<rparr>,
      \<lparr>hash = Some ''bbbbbbbb22'', ctype = Some ''feat'', category = Some ''b'',
       subject = Some ''second'', body = None, flagIfBreaking = None\<rparr>,
      \<lparr>hash = Some ''cccccccc33'', ctype = Some ''feat'', category = Some ''10'',
       subject = Some ''third'', body = None, flagIfBreaking = None\<rparr>,
      \<lparr>hash = Some ''dddddddd44'', ctype = Some ''Fix'', category = Some ''a'',
       subject = Some ''fourth'', body = None, flagIfBreaking = None\<rparr>,
      \<lparr>hash = Some ''eeeeeeee55'', ctype = Some ''feat'', category = Some ''9'',
       subject = Some ''fifth'', body = None, flagIfBreaking = None\<rparr>,
      \<lparr>hash = Some ''ffffffff66'', ctype = Some ''feat'', category = Some ''a'',
       subject = Some ''sixth'', body = None, flagIfBreaking = None\<rparr>].
      own_key (property_key (ctype c)) \<and> own_key (category_key c)) \<and>
    (\<forall>c \<in> set
     [\<lparr>hash = Some ''aaaaaaaa11'', ctype = Some ''zzz'', category = Some ''b'',
       subject = Some ''first'', body = None, flagIfBreaking = None\<rparr>,
      \<lparr>hash = Some ''bbbbbbbb22'', ctype = Some ''feat'', category = Some ''b'',
       subject = Some ''second'', body = None, flagIfBreaking = None\<rparr>,
      \<lparr>hash = Some ''cccccccc33'', ctype = Some ''feat'', category = Some ''10'',
       subject = Some ''third'', body = None, flagIfBreaking = None\<rparr>,
      \<lparr>hash = Some ''dddddddd44'', ctype = Some ''Fix'', category = Some ''a'',
       subject = Some ''fourth'', body = None, flagIfBreaking = None\<rparr>,
      \<lparr>hash = Some ''eeeeeeee55'', ctype = Some ''feat'', category = Some ''9'',
       subject = Some ''fifth'', body = None, flagIfBreaking = None\<rparr>,
      \<lparr>hash = Some ''ffffffff66'', ctype = Some ''feat'', category = Some ''a'',
       subject = Some ''sixth'', body = None, flagIfBreaking = None\<rparr>].
      hash c \<noteq> None \<and> subject c \<noteq> None)"
    by (simp add: own_key_def Object_prototype_def property_key_def category_key_def)
  note m = sections_sorted_categories_by_key [where version = None and date = "''2024-01-24''"
      and opts = "\<lparr>major = False, minor = False, repoUrl = None, allowUnknown = True\<rparr>",
      THEN mp, OF h, THEN conjunct1]
  show ?thesis unfolding m by code_simp
qed

text \<open>
  The claim as stated fails: the category \<open>b\<close> is seen first, and the category \<open>1\<close>, an
  array index, is rendered before it.
\<close>

theorem category_order_counterexample:
  "markdown None ''2024-01-24''
     [\<lparr>hash = Some ''aaaaaaaa11'', ctype = Some ''feat'', category = Some ''b'',
       subject = Some ''first'', body = None, flagIfBreaking = None\<rparr>,
      \<lparr>hash = Some ''bbbbbbbb22'', ctype = Some ''feat'', category = Some ''1'',
       subject = Some ''second'', body = None, flagIfBreaking = None\<rparr>]
     \<lparr>major = False, minor = False, repoUrl = None, allowUnknown = False\<rparr>
   = Inr ''#### 2024-01-24\<newline>\<newline>##### New Features :sparkles:\<newline>\<newline>* **1:** second (bbbbbbbb)\<newline>* **b:** first (aaaaaaaa)\<newline>\<newline>''"
  by code_simp

subsection \<open>Links in the document\<close>

text \<open>
  Claim C7. With a repository URL (a string that is not empty), a \<open>#\<close> followed by a digit
  from 1 to 9 and every digit behind it, found scanning the subject from the left, is
  replaced by a link to \<open>url/pull/number\<close>: a Markdown link in every group but \<open>breaking\<close>,
  an HTML anchor there; the text before the reference is kept and the scan goes on behind
  it. The subject \<open>fix bug (#12)\<close> of a commit outside \<open>breaking\<close> becomes
  \<open>fix bug ([#12](url/pull/12))\<close>. Without a repository URL, and without such a reference,
  the subject is left as it is. The entry of a commit under its group holds the subject so rewritten, trimmed; and the
  document of a list of commits (all with hash and subject, none with an inherited name
  for type or category) contains, for each of its commits, the flag prefix, the trimmed
  subject rewritten for the group of the commit's resolved type, and the short hash.
\<close>

theorem pr_references_linked:
  \<open>(repoUrl opts = Some url \<and> url \<noteq> [] \<and>
     \<not> (\<exists>u x v. pre = u @ CHR ''#'' # x # v \<and> nonzero_digit x) \<and>
     nonzero_digit d \<and> list_all digit ds \<and> (rest = [] \<or> \<not> digit (hd rest)) \<longrightarrow>
     snd (linked opts ty h (pre @ CHR ''#'' # d # ds @ rest)) =
       pre
       @ (if ty = ''breaking''
          then ''<a href="'' @ url @ ''/pull/'' @ d # ds @ ''">#'' @ d # ds @ ''</a>''
          else ''[#'' @ d # ds @ '']('' @ url @ ''/pull/'' @ d # ds @ '')'')
       @ snd (linked opts ty h rest))
   \<and> (repoUrl opts = Some url \<and> url \<noteq> [] \<and> ty \<noteq> ''breaking'' \<longrightarrow>
        snd (linked opts ty h ''fix bug (#12)'') = ''fix bug ([#12]('' @ url @ ''/pull/12))'')
   \<and> (\<not> truthy (repoUrl opts) \<longrightarrow> snd (linked opts ty h s) = s)
   \<and> (\<not> (\<exists>u x v. s = u @ CHR ''#'' # x # v \<and> nonzero_digit x) \<longrightarrow>
        snd (linked opts ty h s) = s)
   \<and> (hash c = Some h \<and> subject c = Some s \<longrightarrow>
        render_commit opts ty bullet c =
          Inr (if ty = ''breaking''
               then (if bullet = ''*'' then '' '' else bullet @ '' \<newline>   '')
                  @ ''* <details>\<newline>      <summary>'' @ breaking_prefix c
                  @ trim (snd (linked opts ty h s))
                  @ '' ('' @ fst (linked opts ty h s) @ '')</summary>\<newline>\<newline>''
                  @ replaceAll (''      '' @ strip_trailers (body c)) (CHR 0x0A) ''\<newline>      ''
                  @ ''</details>''
               else bullet @ '' '' @ breaking_prefix c @ trim (snd (linked opts ty h s))
                  @ '' ('' @ fst (linked opts ty h s) @ '')''))
   \<and> ((\<forall>x \<in> set cs. own_key (property_key (ctype x)) \<and> own_key (category_key x)) \<and>
       (\<forall>x \<in> set cs. hash x \<noteq> None \<and> subject x \<noteq> None) \<and>
       c \<in> set cs \<and> hash c = Some h \<and> subject c = Some s \<longrightarrow>
       (\<exists>doc front back. markdown version date cs opts = Inr doc \<and>
          doc = front @ (breaking_prefix c
            @ trim (snd (linked opts (resolve_type (allowUnknown opts) c) h s))
            @ '' ('' @ fst (linked opts (resolve_type (allowUnknown opts) c) h s) @ '')'')
            @ back))\<close>
proof (intro conjI impI)
  assume a: \<open>repoUrl opts = Some url \<and> url \<noteq> [] \<and>
     \<not> (\<exists>u x v. pre = u @ CHR ''#'' # x # v \<and> nonzero_digit x) \<and>
     nonzero_digit d \<and> list_all digit ds \<and> (rest = [] \<or> \<not> digit (hd rest))\<close>
  then have url: "repoUrl opts = Some url" "url \<noteq> []" by simp_all
  from a have r: "replace_PR f (pre @ CHR ''#'' # d # ds @ rest)
       = pre @ f (CHR ''#'' # d # ds) @ replace_PR f rest" for f
    by (intro replace_PR_reference) simp_all
  show \<open>snd (linked opts ty h (pre @ CHR ''#'' # d # ds @ rest)) =
       pre
       @ (if ty = ''breaking''
          then ''<a href="'' @ url @ ''/pull/'' @ d # ds @ ''">#'' @ d # ds @ ''</a>''
          else ''[#'' @ d # ds @ '']('' @ url @ ''/pull/'' @ d # ds @ '')'')
       @ snd (linked opts ty h rest)\<close>
    by (simp add: linked_subject [OF url] r slice_from_1)
next
  assume a: "repoUrl opts = Some url \<and> url \<noteq> [] \<and> ty \<noteq> ''breaking''"
  then have url: "repoUrl opts = Some url" "url \<noteq> []" by simp_all
  have n: "\<not> (\<exists>u x v. ''fix bug ('' = u @ CHR ''#'' # x # v \<and> nonzero_digit x)"
    by (rule no_hash_no_reference) simp
  have "replace_PR f (''fix bug ('' @ CHR ''#'' # CHR ''1'' # ''2'' @ '')'')
       = ''fix bug ('' @ f (CHR ''#'' # CHR ''1'' # ''2'') @ replace_PR f '')''" for f
    using n by (rule replace_PR_reference)
       (simp_all add: nonzero_digit_def digit_def less_eq_char_def)
  moreover have "replace_PR f '')'' = '')''" for f
    by (simp add: replace_PR.simps)
  ultimately have "replace_PR f ''fix bug (#12)'' = ''fix bug ('' @ f ''#12'' @ '')''" for f
    by simp
  with a show "snd (linked opts ty h ''fix bug (#12)'') = ''fix bug ([#12]('' @ url @ ''/pull/12))''"
    by (simp add: linked_subject [OF url] slice_from_1)
next
  assume "\<not> truthy (repoUrl opts)"
  then show "snd (linked opts ty h s) = s" by (simp add: linked_without_url)
next
  assume "\<not> (\<exists>u x v. s = u @ CHR ''#'' # x # v \<and> nonzero_digit x)"
  then have "replace_PR f (s @ []) = s @ replace_PR f []" for f
    by (intro replace_PR_copy) simp_all
  then have r: "replace_PR f s = s" for f by (simp add: replace_PR.simps(1))
  show "snd (linked opts ty h s) = s"
    by (simp add: linked_def Let_def r split: option.splits)
next
  assume "hash c = Some h \<and> subject c = Some s"
  then show \<open>render_commit opts ty bullet c =
          Inr (if ty = ''breaking''
               then (if bullet = ''*'' then '' '' else bullet @ '' \<newline>   '')
                  @ ''* <details>\<newline>      <summary>'' @ breaking_prefix c
                  @ trim (snd (linked opts ty h s))
                  @ '' ('' @ fst (linked opts ty h s) @ '')</summary>\<newline>\<newline>''
                  @ replaceAll (''      '' @ strip_trailers (body c)) (CHR 0x0A) ''\<newline>      ''
                  @ ''</details>''
               else bullet @ '' '' @ breaking_prefix c @ trim (snd (linked opts ty h s))
                  @ '' ('' @ fst (linked opts ty h s) @ '')'')\<close>
    by (simp add: render_commit_breaking render_commit_plain)
next
  assume a: "(\<forall>x \<in> set cs. own_key (property_key (ctype x)) \<and> own_key (category_key x)) \<and>
       (\<forall>x \<in> set cs. hash x \<noteq> None \<and> subject x \<noteq> None) \<and>
       c \<in> set cs \<and> hash c = Some h \<and> subject c = Some s"
  then have own: "\<forall>x \<in> set cs. own_key (property_key (ctype x)) \<and> own_key (category_key x)"
    and complete: "\<forall>x \<in> set cs. hash x \<noteq> None \<and> subject x \<noteq> None"
    and c: "c \<in> set cs" and hs: "hash c = Some h" "subject c = Some s"
    by simp_all
  from markdown_entry [OF own complete c, of version date opts]
  show "\<exists>doc front back. markdown version date cs opts = Inr doc \<and>
          doc = front @ (breaking_prefix c
            @ trim (snd (linked opts (resolve_type (allowUnknown opts) c) h s))
            @ '' ('' @ fst (linked opts (resolve_type (allowUnknown opts) c) h s) @ '')'')
            @ back"
    by (simp add: summary_eq [OF hs])
qed

theorem pr_references_linked_witness:
  "snd (linked \<lparr>major = False, minor = False, repoUrl = Some ''https://github.com/x/y'',
          allowUnknown = False\<rparr> ''fix'' ''1234567890'' ''fix bug (#12), see #7'')
   = ''fix bug ([#12](https://github.com/x/y/pull/12)), see [#7](https://github.com/x/y/pull/7)''
   \<and> (\<exists>doc front back.
        markdown None ''2024-01-24''
          [\<lparr>hash = Some ''1234567890'', ctype = Some ''fix'', category = Some ''core'',
            subject = Some ''fix bug (#12), see #7'', body = None, flagIfBreaking = None\<rparr>]
          \<lparr>major = False, minor = False, repoUrl = Some ''https://github.com/x/y'',
            allowUnknown = False\<rparr> = Inr doc
        \<and> doc = front @ ''fix bug ([#12](https://github.com/x/y/pull/12)), see [#7](https://github.com/x/y/pull/7) ([12345678](https://github.com/x/y/commit/1234567890))'' @ back)"
proof -
  let ?o = "\<lparr>major = False, minor = False, repoUrl = Some ''https://github.com/x/y'',
          allowUnknown = False\<rparr>"
  let ?c = "\<lparr>hash = Some ''1234567890'', ctype = Some ''fix'', category = Some ''core'',
            subject = Some ''fix bug (#12), see #7'', body = None, flagIfBreaking = None\<rparr>"
  have n: "\<not> (\<exists>u x v. ''fix bug ('' = u @ CHR ''#'' # x # v \<and> nonzero_digit x)"
    by (rule no_hash_no_reference) simp
  have m: "\<not> (\<exists>u x v. ''), see '' = u @ CHR ''#'' # x # v \<and> nonzero_digit x)"
    by (rule no_hash_no_reference) simp
  have a: "snd (linked ?o ''fix'' ''1234567890'' ''fix bug (#12), see #7'')
   = ''fix bug ([#12](https://github.com/x/y/pull/12)), see [#7](https://github.com/x/y/pull/7)''"
    using n m
      pr_references_linked [where opts = ?o
        and url = "''https://github.com/x/y''" and ty = "''fix''" and h = "''1234567890''"
        and pre = "''fix bug (''" and d = "CHR ''1''" and ds = "''2''" and rest = "''), see #7''"]
      pr_references_linked [where opts = ?o
        and url = "''https://github.com/x/y''" and ty = "''fix''" and h = "''1234567890''"
        and pre = "''), see ''" and d = "CHR ''7''" and ds = "[]" and rest = "[]"]
    by (simp add: nonzero_digit_def digit_def less_eq_char_def linked_def replace_PR.simps(1))
  have r: "resolve_type False ?c = ''fix''" by code_simp
  have f: "fst (linked ?o ''fix'' ''1234567890'' ''fix bug (#12), see #7'')
      = ''[12345678](https://github.com/x/y/commit/1234567890)''" by code_simp
  have t: "trim ''fix bug ([#12](https://github.com/x/y/pull/12)), see [#7](https://github.com/x/y/pull/7)''
      = ''fix bug ([#12](https://github.com/x/y/pull/12)), see [#7](https://github.com/x/y/pull/7)''"
    by code_simp
  have b: "\<exists>doc front back.
        markdown None ''2024-01-24'' [?c] ?o = Inr doc
        \<and> doc = front @ ''fix bug ([#12](https://github.com/x/y/pull/12)), see [#7](https://github.com/x/y/pull/7) ([12345678](https://github.com/x/y/commit/1234567890))'' @ back"
    using pr_references_linked [where opts = ?o and c = ?c and cs = "[?c]"
        and h = "''1234567890''" and s = "''fix bug (#12), see #7''"
        and version = None and date = "''2024-01-24''",
        THEN conjunct2, THEN conjunct2, THEN conjunct2, THEN conjunct2, THEN conjunct2]
    by (simp add: own_key_def Object_prototype_def property_key_def category_key_def
        r a f t breaking_prefix_def truthy_def)
  from a b show ?thesis by (rule conjI)
qed

text \<open>
  Claim C8. Without a repository URL the short hash is the first eight characters of the
  hash and the subject is the commit's own text: the entry of a commit holds both as they
  are, with no link. With a repository URL the short hash is wrapped in a Markdown link,
  or in an anchor in the group \<open>breaking\<close>, that points at \<open>getCommitUrl\<close> of the URL and
  the full hash, and the entry holds it so. Whether a commit is rendered, and whether the
  writer returns a document, does not depend on the repository URL. For a list of commits
  that all have a hash and a subject and name no inherited member, the writer returns
  the document made of these entries: without a repository URL it contains, for each
  commit, the flag prefix, the trimmed subject and the plain short hash in parentheses;
  with a repository URL it contains the short hash of each commit wrapped in its link.
\<close>

theorem links_follow_repoUrl:
  \<open>(\<not> truthy (repoUrl opts) \<longrightarrow>
      linked opts ty h s = (take 8 h, s)
      \<and> (hash c = Some h \<and> subject c = Some s \<longrightarrow>
           render_commit opts ty bullet c =
             Inr (if ty = ''breaking''
                  then (if bullet = ''*'' then '' '' else bullet @ '' \<newline>   '')
                     @ ''* <details>\<newline>      <summary>'' @ breaking_prefix c @ trim s
                     @ '' ('' @ take 8 h @ '')</summary>\<newline>\<newline>''
                     @ replaceAll (''      '' @ strip_trailers (body c)) (CHR 0x0A) ''\<newline>      ''
                     @ ''</details>''
                  else bullet @ '' '' @ breaking_prefix c @ trim s @ '' ('' @ take 8 h @ '')'')))
   \<and> (repoUrl opts = Some url \<and> url \<noteq> [] \<longrightarrow>
        fst (linked opts ty h s) =
          (if ty = ''breaking''
           then ''<a href="'' @ getCommitUrl url h @ ''">'' @ take 8 h @ ''</a>''
           else ''['' @ take 8 h @ '']('' @ getCommitUrl url h @ '')'')
        \<and> (hash c = Some h \<and> subject c = Some s \<longrightarrow>
             render_commit opts ty bullet c =
               Inr (if ty = ''breaking''
                    then (if bullet = ''*'' then '' '' else bullet @ '' \<newline>   '')
                       @ ''* <details>\<newline>      <summary>'' @ breaking_prefix c
                       @ trim (snd (linked opts ty h s))
                       @ '' (<a href="'' @ getCommitUrl url h @ ''">'' @ take 8 h
                       @ ''</a>)</summary>\<newline>\<newline>''
                       @ replaceAll (''      '' @ strip_trailers (body c)) (CHR 0x0A) ''\<newline>      ''
                       @ ''</details>''
                    else bullet @ '' '' @ breaking_prefix c @ trim (snd (linked opts ty h s))
                       @ '' (['' @ take 8 h @ '']('' @ getCommitUrl url h @ ''))'')))
   \<and> isl (render_commit (opts\<lparr>repoUrl := r\<rparr>) ty bullet c) = isl (render_commit opts ty bullet c)
   \<and> ((\<forall>x \<in> set cs. own_key (property_key (ctype x))) \<longrightarrow>
        isl (markdown version date cs (opts\<lparr>repoUrl := r\<rparr>)) = isl (markdown version date cs opts))
   \<and> ((\<forall>x \<in> set cs. own_key (property_key (ctype x)) \<and> own_key (category_key x)) \<and>
       (\<forall>x \<in> set cs. hash x \<noteq> None \<and> subject x \<noteq> None) \<longrightarrow>
       markdown version date cs opts = Inr (document opts version date cs)
       \<and> (c \<in> set cs \<and> hash c = Some h \<and> subject c = Some s \<longrightarrow>
            (\<not> truthy (repoUrl opts) \<longrightarrow>
               (\<exists>front back. document opts version date cs =
                  front @ (breaking_prefix c @ trim s @ '' ('' @ take 8 h @ '')'') @ back))
            \<and> (repoUrl opts = Some url \<and> url \<noteq> [] \<longrightarrow>
               (\<exists>front back. document opts version date cs =
                  front @ (breaking_prefix c
                    @ trim (snd (linked opts (resolve_type (allowUnknown opts) c) h s))
                    @ '' (''
                    @ (if resolve_type (allowUnknown opts) c = ''breaking''
                       then ''<a href="'' @ getCommitUrl url h @ ''">'' @ take 8 h @ ''</a>''
                       else ''['' @ take 8 h @ '']('' @ getCommitUrl url h @ '')'')
                    @ '')'') @ back))))\<close>
proof (intro conjI impI)
  assume n: "\<not> truthy (repoUrl opts)"
  then show "linked opts ty h s = (take 8 h, s)" by (rule linked_without_url)
  assume "hash c = Some h \<and> subject c = Some s"
  then show \<open>render_commit opts ty bullet c =
             Inr (if ty = ''breaking''
                  then (if bullet = ''*'' then '' '' else bullet @ '' \<newline>   '')
                     @ ''* <details>\<newline>      <summary>'' @ breaking_prefix c @ trim s
                     @ '' ('' @ take 8 h @ '')</summary>\<newline>\<newline>''
                     @ replaceAll (''      '' @ strip_trailers (body c)) (CHR 0x0A) ''\<newline>      ''
                     @ ''</details>''
                  else bullet @ '' '' @ breaking_prefix c @ trim s @ '' ('' @ take 8 h @ '')'')\<close>
    using n by (simp add: render_commit_breaking render_commit_plain linked_without_url)
next
  assume u: "repoUrl opts = Some url \<and> url \<noteq> []"
  then show \<open>fst (linked opts ty h s) =
          (if ty = ''breaking''
           then ''<a href="'' @ getCommitUrl url h @ ''">'' @ take 8 h @ ''</a>''
           else ''['' @ take 8 h @ '']('' @ getCommitUrl url h @ '')'')\<close>
    by (simp add: linked_hash)
  assume "hash c = Some h \<and> subject c = Some s"
  then show \<open>render_commit opts ty bullet c =
               Inr (if ty = ''breaking''
                    then (if bullet = ''*'' then '' '' else bullet @ '' \<newline>   '')
                       @ ''* <details>\<newline>      <summary>'' @ breaking_prefix c
                       @ trim (snd (linked opts ty h s))
                       @ '' (<a href="'' @ getCommitUrl url h @ ''">'' @ take 8 h
                       @ ''</a>)</summary>\<newline>\<newline>''
                       @ replaceAll (''      '' @ strip_trailers (body c)) (CHR 0x0A) ''\<newline>      ''
                       @ ''</details>''
                    else bullet @ '' '' @ breaking_prefix c @ trim (snd (linked opts ty h s))
                       @ '' (['' @ take 8 h @ '']('' @ getCommitUrl url h @ ''))'')\<close>
    using u by (simp add: render_commit_breaking render_commit_plain linked_hash)
next
  show "isl (render_commit (opts\<lparr>repoUrl := r\<rparr>) ty bullet c) = isl (render_commit opts ty bullet c)"
    by (simp add: render_commit_isl)
next
  assume "\<forall>x \<in> set cs. own_key (property_key (ctype x))"
  then show "isl (markdown version date cs (opts\<lparr>repoUrl := r\<rparr>))
      = isl (markdown version date cs opts)"
    by (rule markdown_isl_repoUrl)
next
  assume a: "(\<forall>x \<in> set cs. own_key (property_key (ctype x)) \<and> own_key (category_key x)) \<and>
       (\<forall>x \<in> set cs. hash x \<noteq> None \<and> subject x \<noteq> None)"
  then have own: "\<forall>x \<in> set cs. own_key (property_key (ctype x)) \<and> own_key (category_key x)"
    and complete: "\<forall>x \<in> set cs. hash x \<noteq> None \<and> subject x \<noteq> None"
    by simp_all
  show d: "markdown version date cs opts = Inr (document opts version date cs)"
    using own complete by (rule markdown_document)
  assume c: "c \<in> set cs \<and> hash c = Some h \<and> subject c = Some s"
  then have hs: "hash c = Some h" "subject c = Some s" by simp_all
  from c have "c \<in> set cs" by simp
  from markdown_entry [OF own complete this, of version date opts]
  have e: "\<exists>front back. document opts version date cs =
      front @ (breaking_prefix c
        @ trim (snd (linked opts (resolve_type (allowUnknown opts) c) h s))
        @ '' ('' @ fst (linked opts (resolve_type (allowUnknown opts) c) h s) @ '')'') @ back"
    by (simp add: d summary_eq [OF hs])
  {
    assume "\<not> truthy (repoUrl opts)"
    with e show "\<exists>front back. document opts version date cs =
        front @ (breaking_prefix c @ trim s @ '' ('' @ take 8 h @ '')'') @ back"
      by (simp add: linked_without_url)
  next
    assume "repoUrl opts = Some url \<and> url \<noteq> []"
    then have url: "repoUrl opts = Some url" "url \<noteq> []" by simp_all
    from e show \<open>\<exists>front back. document opts version date cs =
                  front @ (breaking_prefix c
                    @ trim (snd (linked opts (resolve_type (allowUnknown opts) c) h s))
                    @ '' (''
                    @ (if resolve_type (allowUnknown opts) c = ''breaking''
                       then ''<a href="'' @ getCommitUrl url h @ ''">'' @ take 8 h @ ''</a>''
                       else ''['' @ take 8 h @ '']('' @ getCommitUrl url h @ '')'')
                    @ '')'') @ back\<close>
      unfolding linked_hash [OF url] .
  }
qed

theorem links_follow_repoUrl_witness:
  "render_commit \<lparr>major = False, minor = False, repoUrl = None, allowUnknown = False\<rparr>
     ''fix'' ''* **core:**''
     \<lparr>hash = Some ''1234567890'', ctype = Some ''fix'', category = Some ''core'',
      subject = Some ''fix bug (#12)'', body = None, flagIfBreaking = None\<rparr>
   = Inr ''* **core:** fix bug (#12) (12345678)''
   \<and> fst (linked \<lparr>major = False, minor = False, repoUrl = Some ''https://github.com/x/y'',
              allowUnknown = False\<rparr> ''fix'' ''1234567890'' ''fix bug (#12)'')
     = ''[12345678](https://github.com/x/y/commit/1234567890)''
   \<and> markdown None ''2024-01-24''
     [\<lparr>hash = Some ''1234567890'', ctype = Some ''fix'', category = Some ''core'',
       subject = Some ''fix bug (#12)'', body = None, flagIfBreaking = None\<rparr>]
     \<lparr>major = False, minor = False, repoUrl = None, allowUnknown = False\<rparr>
   = Inr ''#### 2024-01-24\<newline>\<newline>##### Bug Fixes :bug:\<newline>\<newline>* **core:** fix bug (#12) (12345678)\<newline>\<newline>''
   \<and> markdown None ''2024-01-24''
     [\<lparr>hash = Some ''1234567890'', ctype = Some ''fix'', category = Some ''core'',
       subject = Some ''fix bug (#12)'', body = None, flagIfBreaking = None\<rparr>]
     \<lparr>major = False, minor = False, repoUrl = Some ''https://github.com/x/y'',
       allowUnknown = False\<rparr>
   = Inr ''#### 2024-01-24\<newline>\<newline>##### Bug Fixes :bug:\<newline>\<newline>* **core:** fix bug ([#12](https://github.com/x/y/pull/12)) ([12345678](https://github.com/x/y/commit/1234567890))\<newline>\<newline>''"
proof -
  let ?c = "\<lparr>hash = Some ''1234567890'', ctype = Some ''fix'', category = Some ''core'',
       subject = Some ''fix bug (#12)'', body = None, flagIfBreaking = None\<rparr>"
  have u: "getCommitUrl ''https://github.com/x/y'' ''1234567890''
      = ''https://github.com/x/y/commit/1234567890''"
    by code_simp
  have line: "render_commit \<lparr>major = False, minor = False, repoUrl = None, allowUnknown = False\<rparr>
       ''fix'' ''* **core:**'' ?c = Inr ''* **core:** fix bug (#12) (12345678)''
     \<and> fst (linked \<lparr>major = False, minor = False, repoUrl = Some ''https://github.com/x/y'',
              allowUnknown = False\<rparr> ''fix'' ''1234567890'' ''fix bug (#12)'')
       = ''[12345678](https://github.com/x/y/commit/1234567890)''"
    using links_follow_repoUrl [where ty = "''fix''" and bullet = "''* **core:**''"
        and opts = "\<lparr>major = False, minor = False, repoUrl = None, allowUnknown = False\<rparr>"
        and c = ?c and h = "''1234567890''" and s = "''fix bug (#12)''",
        THEN conjunct1]
      links_follow_repoUrl [where ty = "''fix''"
        and opts = "\<lparr>major = False, minor = False, repoUrl = Some ''https://github.com/x/y'',
            allowUnknown = False\<rparr>"
        and url = "''https://github.com/x/y''"
        and h = "''1234567890''" and s = "''fix bug (#12)''",
        THEN conjunct2, THEN conjunct1]
    by (simp add: truthy_def trim_def white_space_def breaking_prefix_def u)
  have h: "(\<forall>x \<in> set [?c]. own_key (property_key (ctype x)) \<and> own_key (category_key x)) \<and>
       (\<forall>x \<in> set [?c]. hash x \<noteq> None \<and> subject x \<noteq> None)"
    by (simp add: own_key_def Object_prototype_def property_key_def category_key_def)
  note a = links_follow_repoUrl [where cs = "[?c]" and version = None and date = "''2024-01-24''"
      and opts = "\<lparr>major = False, minor = False, repoUrl = None, allowUnknown = False\<rparr>",
      THEN conjunct2, THEN conjunct2, THEN conjunct2, THEN conjunct2, THEN mp, OF h,
      THEN conjunct1]
  note b = links_follow_repoUrl [where cs = "[?c]" and version = None and date = "''2024-01-24''"
      and opts = "\<lparr>major = False, minor = False, repoUrl = Some ''https://github.com/x/y'',
        allowUnknown = False\<rparr>",
      THEN conjunct2, THEN conjunct2, THEN conjunct2, THEN conjunct2, THEN mp, OF h,
      THEN conjunct1]
  have doc: "markdown None ''2024-01-24'' [?c]
       \<lparr>major = False, minor = False, repoUrl = None, allowUnknown = False\<rparr>
     = Inr ''#### 2024-01-24\<newline>\<newline>##### Bug Fixes :bug:\<newline>\<newline>* **core:** fix bug (#12) (12345678)\<newline>\<newline>''
     \<and> markdown None ''2024-01-24'' [?c]
       \<lparr>major = False, minor = False, repoUrl = Some ''https://github.com/x/y'',
         allowUnknown = False\<rparr>
     = Inr ''#### 2024-01-24\<newline>\<newline>##### Bug Fixes :bug:\<newline>\<newline>* **core:** fix bug ([#12](https://github.com/x/y/pull/12)) ([12345678](https://github.com/x/y/commit/1234567890))\<newline>\<newline>''"
    unfolding a b by code_simp
  from line doc show ?thesis by simp
qed

end
